theory Spec2Isabelle
  imports Complex_Main "HOL-Library.Multiset"
begin

section \<open>The holographic effect engine (holographic-effect/holographic.js)\<close>

text \<open>
  A finite JavaScript number is modelled by the real it denotes. The gesture code
  compares pointer coordinates with rectangles and its arithmetic is read as exact; the
  position update of the engine computes the rotations, and there every operation rounds
  (see \<open>round_double\<close> below). Objects live in explicit stores: an effect
  instance is a reference (a natural number) into \<open>heap\<close>, and the parts of the DOM
  that the code reads and writes are fields of the world record. Inline gradient strings,
  the position/overflow fix-ups of \<open>_setup\<close> and the hover classes are presentation only
  and are left out.
\<close>

subsection \<open>Values, elements, errors\<close>

text \<open>
  The elements the page creates or looks up. \<open>createCard\<close> makes one slot and one inner
  element per card object, so both are named by the card's allocation number.
\<close>

datatype elem = SlotEl nat | InnerEl nat | PlaceholderEl nat | LightboxCardEl

text \<open>
  What a caller may pass as the constructor's first argument: \<open>JSPrimitive b\<close> is a
  number, string or boolean of truthiness \<open>b\<close>; \<open>JSObject\<close> is any object that is not
  an HTMLElement.
\<close>

datatype js_value = JSUndefined | JSNull | JSPrimitive bool | JSObject | JSElement elem

fun truthy :: "js_value \<Rightarrow> bool" where
  "truthy JSUndefined = False"
| "truthy JSNull = False"
| "truthy (JSPrimitive b) = b"
| "truthy JSObject = True"
| "truthy (JSElement e) = True"

fun instanceof_HTMLElement :: "js_value \<Rightarrow> bool" where
  "instanceof_HTMLElement (JSElement e) = True"
| "instanceof_HTMLElement v = False"

text \<open>
  Exceptions: \<open>HoloArgError\<close> is the constructor's
  \<^verbatim>\<open>Error('HolographicEffect: first argument must be an HTMLElement')\<close>;
  \<open>NotFoundError\<close> is the DOMException of \<open>insertBefore\<close> when the reference node is
  not a child of the parent; \<open>NullError\<close> is the TypeError of reading a property of
  \<open>null\<close>.
\<close>

datatype js_error = HoloArgError | NotFoundError | NullError

subsection \<open>Options\<close>

record opacity =
  holographic_o :: real
  shimmer_o :: real
  glare_o :: real

record holo_opts =
  maxRotation :: real
  perspective :: real
  glareMultiplier :: real
  hoverTransition :: string
  leaveTransition :: string
  tilt :: bool
  holographic :: bool
  shimmer :: bool
  glare :: bool
  idle :: opacity
  hover :: opacity

definition DEFAULTS :: holo_opts where
  "DEFAULTS = \<lparr> maxRotation = 15, perspective = 1000, glareMultiplier = 3 / 2,
     hoverTransition = ''0.1s ease'',
     leaveTransition = ''0.8s cubic-bezier(0.23, 1, 0.32, 1)'',
     tilt = True, holographic = True, shimmer = True, glare = True,
     idle = \<lparr> holographic_o = 3 / 10, shimmer_o = 4 / 10, glare_o = 5 / 10 \<rparr>,
     hover = \<lparr> holographic_o = 6 / 10, shimmer_o = 7 / 10, glare_o = 1 \<rparr> \<rparr>"

text \<open>The \<open>opts\<close> argument: a key that is absent is \<open>None\<close>.\<close>

record opacity_patch =
  holographic_p :: "real option"
  shimmer_p :: "real option"
  glare_p :: "real option"

record opts_patch =
  maxRotation_p :: "real option"
  perspective_p :: "real option"
  glareMultiplier_p :: "real option"
  hoverTransition_p :: "string option"
  leaveTransition_p :: "string option"
  tilt_p :: "bool option"
  holographic_flag_p :: "bool option"
  shimmer_flag_p :: "bool option"
  glare_flag_p :: "bool option"
  idle_p :: "opacity_patch option"
  hover_p :: "opacity_patch option"

definition no_opts :: opts_patch where
  "no_opts = \<lparr> maxRotation_p = None, perspective_p = None, glareMultiplier_p = None,
     hoverTransition_p = None, leaveTransition_p = None, tilt_p = None,
     holographic_flag_p = None, shimmer_flag_p = None, glare_flag_p = None,
     idle_p = None, hover_p = None \<rparr>"

definition orElse :: "'a option \<Rightarrow> 'a \<Rightarrow> 'a" where
  "orElse x d = (case x of None \<Rightarrow> d | Some v \<Rightarrow> v)"

text \<open>\<^verbatim>\<open>{ ...DEFAULTS.idle, ...(opts.idle || {}) }\<close>\<close>

definition merge_opacity :: "opacity \<Rightarrow> opacity_patch option \<Rightarrow> opacity" where
  "merge_opacity d p = (case p of None \<Rightarrow> d
     | Some q \<Rightarrow> \<lparr> holographic_o = orElse (holographic_p q) (holographic_o d),
                  shimmer_o = orElse (shimmer_p q) (shimmer_o d),
                  glare_o = orElse (glare_p q) (glare_o d) \<rparr>)"

text \<open>\<^verbatim>\<open>{ ...DEFAULTS, ...opts }\<close> followed by the merge of the two nested objects.\<close>

definition merge_opts :: "opts_patch \<Rightarrow> holo_opts" where
  "merge_opts p = \<lparr> maxRotation = orElse (maxRotation_p p) (maxRotation DEFAULTS),
     perspective = orElse (perspective_p p) (perspective DEFAULTS),
     glareMultiplier = orElse (glareMultiplier_p p) (glareMultiplier DEFAULTS),
     hoverTransition = orElse (hoverTransition_p p) (hoverTransition DEFAULTS),
     leaveTransition = orElse (leaveTransition_p p) (leaveTransition DEFAULTS),
     tilt = orElse (tilt_p p) (tilt DEFAULTS),
     holographic = orElse (holographic_flag_p p) (holographic DEFAULTS),
     shimmer = orElse (shimmer_flag_p p) (shimmer DEFAULTS),
     glare = orElse (glare_flag_p p) (glare DEFAULTS),
     idle = merge_opacity (idle DEFAULTS) (idle_p p),
     hover = merge_opacity (hover DEFAULTS) (hover_p p) \<rparr>"

subsection \<open>Instances and the world they act on\<close>

record holo_state =
  rx :: real
  ry :: real
  mx :: real
  my :: real
  active :: bool

datatype layer = HoloColor | HoloShimmer | HoloGlare

text \<open>
  The fields of a \<open>HolographicEffect\<close> object; \<open>hstate\<close>, \<open>hlayers\<close>, \<open>hraf\<close>,
  \<open>hdirty\<close> and \<open>hreducedMotion\<close> are the source's \<open>_state\<close>, \<open>_layers\<close>, \<open>_raf\<close>,
  \<open>_dirty\<close> and \<open>_reducedMotion\<close>.
\<close>

record holo_obj =
  el :: elem
  opts :: holo_opts
  hreducedMotion :: bool
  hstate :: holo_state
  hlayers :: "layer list"
  hraf :: "nat option"
  hdirty :: bool

text \<open>
  The world of the engine. \<open>heap\<close> holds the instances ever constructed (references
  below \<open>nextRef\<close>); \<open>listeners e\<close> lists the instances whose six handlers are
  registered on element \<open>e\<close>; \<open>overlays e\<close> lists the overlay children of \<open>e\<close>, each
  with the instance that made it; \<open>transform e\<close> is the inline transform
  (perspective, rotateX, rotateY) and \<open>frames\<close> the pending animation frame requests.
\<close>

record world =
  prefersReducedMotion :: bool
  heap :: "nat \<Rightarrow> holo_obj"
  nextRef :: nat
  listeners :: "elem \<Rightarrow> nat list"
  overlays :: "elem \<Rightarrow> (nat \<times> layer) list"
  transform :: "elem \<Rightarrow> (real \<times> real \<times> real) option"
  transition :: "elem \<Rightarrow> string"
  frames :: "(nat \<times> nat) list"
  nextFrame :: nat

definition upd_obj :: "nat \<Rightarrow> (holo_obj \<Rightarrow> holo_obj) \<Rightarrow> 'a world_scheme \<Rightarrow> 'a world_scheme" where
  "upd_obj r f w = w\<lparr> heap := (heap w)(r := f (heap w r)) \<rparr>"

text \<open>\<open>_makeLayer\<close>: a new overlay child of the element, remembered in \<open>_layers\<close>.\<close>

definition makeLayer :: "nat \<Rightarrow> layer \<Rightarrow> 'a world_scheme \<Rightarrow> 'a world_scheme" where
  "makeLayer r k w =
     (let e = el (heap w r);
          w1 = w\<lparr> overlays := (overlays w)(e := overlays w e @ [(r, k)]) \<rparr>
      in upd_obj r (\<lambda>obj. obj\<lparr> hlayers := hlayers obj @ [k] \<rparr>) w1)"

definition holo_setup :: "nat \<Rightarrow> 'a world_scheme \<Rightarrow> 'a world_scheme" where
  "holo_setup r w =
     (if hreducedMotion (heap w r) then w
      else let w1 = (if holographic (opts (heap w r)) then makeLayer r HoloColor w else w);
               w2 = (if shimmer (opts (heap w1 r)) then makeLayer r HoloShimmer w1 else w1);
               w3 = (if glare (opts (heap w2 r)) then makeLayer r HoloGlare w2 else w2)
           in w3)"

definition bindEvents :: "nat \<Rightarrow> 'a world_scheme \<Rightarrow> 'a world_scheme" where
  "bindEvents r w =
     (let e = el (heap w r) in w\<lparr> listeners := (listeners w)(e := listeners w e @ [r]) \<rparr>)"

definition render :: "nat \<Rightarrow> 'a world_scheme \<Rightarrow> 'a world_scheme" where
  "render r w =
     (let obj = heap w r; o' = opts obj; st = hstate obj
      in if tilt o' \<and> \<not> hreducedMotion obj
         then w\<lparr> transform := (transform w)(el obj := Some (perspective o', rx st, ry st)) \<rparr>
         else w)"

definition new_obj :: "elem \<Rightarrow> opts_patch \<Rightarrow> bool \<Rightarrow> holo_obj" where
  "new_obj e p reduced = \<lparr> el = e, opts = merge_opts p, hreducedMotion = reduced,
     hstate = \<lparr> rx = 0, ry = 0, mx = 50, my = 50, active = False \<rparr>,
     hlayers = [], hraf = None, hdirty = False \<rparr>"

text \<open>
  The constructor. The result pairs what the call returns or throws with the world after
  the call, so that a throw shows the world it leaves behind.
\<close>

definition HolographicEffect_new ::
  "js_value \<Rightarrow> opts_patch \<Rightarrow> 'a world_scheme \<Rightarrow> (js_error + nat) \<times> 'a world_scheme" where
  "HolographicEffect_new v p w =
     (if \<not> truthy v \<or> \<not> instanceof_HTMLElement v then (Inl HoloArgError, w)
      else case v of
        JSElement e \<Rightarrow>
          (let r = nextRef w;
               w1 = w\<lparr> heap := (heap w)(r := new_obj e p (prefersReducedMotion w)),
                       nextRef := Suc r \<rparr>;
               w2 = holo_setup r w1;
               w3 = bindEvents r w2;
               w4 = render r w3
           in (Inr r, w4))
      | _ \<Rightarrow> (Inl HoloArgError, w))"

text \<open>\<open>_scheduleRender\<close>: at most one frame request is outstanding per instance.\<close>

definition scheduleRender :: "nat \<Rightarrow> 'a world_scheme \<Rightarrow> 'a world_scheme" where
  "scheduleRender r w =
     (if \<not> hdirty (heap w r)
      then let f = nextFrame w;
               w1 = upd_obj r (\<lambda>obj. obj\<lparr> hdirty := True, hraf := Some f \<rparr>) w
           in w1\<lparr> frames := frames w1 @ [(f, r)], nextFrame := Suc f \<rparr>
      else w)"

text \<open>The callback of a frame request, run by the browser if the request is pending.\<close>

definition frame :: "nat \<Rightarrow> 'a world_scheme \<Rightarrow> 'a world_scheme" where
  "frame f w =
     (case map_of (frames w) f of
        None \<Rightarrow> w
      | Some r \<Rightarrow>
          render r (upd_obj r (\<lambda>obj. obj\<lparr> hdirty := False \<rparr>)
            (w\<lparr> frames := filter (\<lambda>fr. fst fr \<noteq> f) (frames w) \<rparr>)))"

record rect =
  r_left :: real
  r_top :: real
  r_width :: real
  r_height :: real

definition r_right :: "rect \<Rightarrow> real" where
  "r_right r = r_left r + r_width r"

definition r_bottom :: "rect \<Rightarrow> real" where
  "r_bottom r = r_top r + r_height r"

subsection \<open>Number arithmetic\<close>

text \<open>
  A JavaScript number is an IEEE 754 double (binary64). An arithmetic operation
  returns the exact result rounded to the nearest double, ties going to the double with
  an even significand, or an infinity if the rounded result is beyond the largest
  double; a division by zero returns an infinity or NaN. A finite double is modelled by the
  real it denotes (the two zeros are one), and an operation whose result is not a
  finite number gives \<open>None\<close>.

  \<open>round_even\<close> rounds a real that is not negative to the nearest integer, ties to
  even. \<open>ulp_exp v\<close> is the exponent of the spacing of the doubles around a positive
  \<open>v\<close>: a double has 53 significant bits, and below \<open>2 powi - 1022\<close> (the subnormal
  range) the spacing stays \<open>2 powi - 1074\<close>. Unary minus is exact.
\<close>

definition round_even :: "real \<Rightarrow> int" where
  "round_even v =
     (let n = \<lfloor>v\<rfloor>
      in if v - of_int n < 1 / 2 then n
         else if 1 / 2 < v - of_int n then n + 1
         else if even n then n else n + 1)"

definition ulp_exp :: "real \<Rightarrow> int" where
  "ulp_exp v = max (\<lfloor>log 2 v\<rfloor> - 52) (- 1074)"

definition round_magnitude :: "real \<Rightarrow> real" where
  "round_magnitude v =
     (if v = 0 then 0
      else of_int (round_even (v / 2 powi ulp_exp v)) * 2 powi ulp_exp v)"

definition round_double :: "real \<Rightarrow> real" where
  "round_double v = sgn v * round_magnitude \<bar>v\<bar>"

definition MAX_VALUE :: real where
  "MAX_VALUE = (2 ^ 53 - 1) * 2 ^ 971"

definition rounded :: "real \<Rightarrow> real option" where
  "rounded v = (if \<bar>round_double v\<bar> \<le> MAX_VALUE then Some (round_double v) else None)"

definition num_sub :: "real \<Rightarrow> real \<Rightarrow> real option" where
  "num_sub a b = rounded (a - b)"

definition num_mul :: "real \<Rightarrow> real \<Rightarrow> real option" where
  "num_mul a b = rounded (a * b)"

definition num_div :: "real \<Rightarrow> real \<Rightarrow> real option" where
  "num_div a b = (if b = 0 then None else rounded (a / b))"

text \<open>
  \<open>_updateFromPoint\<close>, with the element's bounding rectangle as an argument. Each
  line binds the result of one operation of the source, in the order of evaluation:
  \<open>dy\<close>, \<open>qy\<close> are \<^verbatim>\<open>y - halfH\<close> and \<^verbatim>\<open>(y - halfH) / halfH\<close>, and so on. The result is
  \<open>None\<close> if an operation does not return a finite number (a rectangle of width or
  height 0, an overflow).
\<close>

definition updateFromPoint ::
  "nat \<Rightarrow> rect \<Rightarrow> real \<Rightarrow> real \<Rightarrow> 'a world_scheme \<Rightarrow> 'a world_scheme option" where
  "updateFromPoint r bounds cx cy w =
     Option.bind (num_sub cx (r_left bounds)) (\<lambda>x.
     Option.bind (num_sub cy (r_top bounds)) (\<lambda>y.
     Option.bind (num_div (r_width bounds) 2) (\<lambda>halfW.
     Option.bind (num_div (r_height bounds) 2) (\<lambda>halfH.
     Option.bind (num_sub y halfH) (\<lambda>dy.
     Option.bind (num_div dy halfH) (\<lambda>qy.
     Option.bind (num_mul qy (- maxRotation (opts (heap w r)))) (\<lambda>rxv.
     Option.bind (num_sub x halfW) (\<lambda>dx.
     Option.bind (num_div dx halfW) (\<lambda>qx.
     Option.bind (num_mul qx (maxRotation (opts (heap w r)))) (\<lambda>ryv.
     Option.bind (num_div x (r_width bounds)) (\<lambda>px.
     Option.bind (num_mul px 100) (\<lambda>mxv.
     Option.bind (num_div y (r_height bounds)) (\<lambda>py.
     Option.bind (num_mul py 100) (\<lambda>myv.
       Some (scheduleRender r (upd_obj r (\<lambda>obj. obj\<lparr> hstate := (hstate obj)\<lparr>
               rx := rxv, ry := ryv, mx := mxv, my := myv \<rparr> \<rparr>) w))))))))))))))))"

definition handleEnter :: "nat \<Rightarrow> 'a world_scheme \<Rightarrow> 'a world_scheme" where
  "handleEnter r w =
     (let w1 = upd_obj r (\<lambda>obj. obj\<lparr> hstate := (hstate obj)\<lparr> active := True \<rparr> \<rparr>) w;
          obj = heap w1 r;
          w2 = w1\<lparr> transition := (transition w1)(el obj := ''transform '' @ hoverTransition (opts obj)) \<rparr>
      in scheduleRender r w2)"

definition handleLeave :: "nat \<Rightarrow> 'a world_scheme \<Rightarrow> 'a world_scheme" where
  "handleLeave r w =
     (let w1 = upd_obj r (\<lambda>obj. obj\<lparr> hstate := (hstate obj)\<lparr> active := False, rx := 0, ry := 0 \<rparr> \<rparr>) w;
          obj = heap w1 r;
          w2 = w1\<lparr> transition := (transition w1)(el obj := ''transform '' @ leaveTransition (opts obj)) \<rparr>
      in scheduleRender r w2)"

text \<open>\<open>destroy\<close>: cancel the frame request, unregister, remove the overlays, clear the styles.\<close>

definition destroy :: "nat \<Rightarrow> 'a world_scheme \<Rightarrow> 'a world_scheme" where
  "destroy r w =
     (let obj = heap w r;
          e = el obj;
          w1 = w\<lparr> frames := filter (\<lambda>fr. Some (fst fr) \<noteq> hraf obj) (frames w) \<rparr>;
          w2 = w1\<lparr> listeners := (listeners w1)(e := removeAll r (listeners w1 e)) \<rparr>;
          w3 = w2\<lparr> overlays := (overlays w2)(e :=
                  filter (\<lambda>ov. \<not> (fst ov = r \<and> snd ov \<in> set (hlayers obj))) (overlays w2 e)) \<rparr>;
          w4 = upd_obj r (\<lambda>obj. obj\<lparr> hlayers := [] \<rparr>) w3
      in w4\<lparr> transform := (transform w4)(e := None),
              transition := (transition w4)(e := []) \<rparr>)"

section \<open>The page: hand, table and pointer gestures\<close>

subsection \<open>Constants and state\<close>

definition CARD_COUNT :: nat where
  "CARD_COUNT = 6"

definition MAX_FIELD :: nat where
  "MAX_FIELD = 3"

definition HOLD_DELAY :: nat where
  "HOLD_DELAY = 400"

definition DRAG_THRESHOLD :: real where
  "DRAG_THRESHOLD = 8"

text \<open>
  The gesture session \<open>pointerState\<close>. \<open>card_ref\<close> is the source's field \<open>card\<close> (a
  reference to the card object), \<open>holdTimer\<close> the id returned by \<open>setTimeout\<close>,
  \<open>placeholder\<close> the number of the placeholder element, \<open>None\<close> for \<open>null\<close>.
\<close>

record pointer_state =
  card_ref :: nat
  pointerId :: int
  startX :: real
  startY :: real
  offsetX :: real
  offsetY :: real
  isDragging :: bool
  holdTimer :: nat
  placeholder :: "nat option"
  originalIndex :: int

text \<open>
  The page extends the engine's world. \<open>cards\<close> and \<open>playedCards\<close> are the two arrays
  of card references; \<open>holoEffect c\<close> is the field \<open>holoEffect\<close> of card object \<open>c\<close>;
  \<open>prop_i c\<close> and \<open>prop_n c\<close> are the custom properties \<open>--i\<close> and \<open>--n\<close> of its slot.
  \<open>handChildren\<close>, \<open>playChildren\<close> and \<open>bodyChildren\<close> are the slots and placeholders
  that are children of \<open>#hand\<close>, of \<open>#playArea\<close> and of the body, in document order.
  \<open>timers\<close> holds the armed timeouts (id, time due) in the order they were set, \<open>now\<close>
  is the clock in milliseconds.
\<close>

record page = world +
  cards :: "nat list"
  playedCards :: "nat list"
  isFan :: bool
  lightboxEffect :: "nat option"
  pointerState :: "pointer_state option"
  holoEffect :: "nat \<Rightarrow> nat"
  prop_i :: "nat \<Rightarrow> nat"
  prop_n :: "nat \<Rightarrow> nat"
  handChildren :: "elem list"
  playChildren :: "elem list"
  bodyChildren :: "elem list"
  lightboxActive :: bool
  handFlat :: bool
  dropHover :: bool
  fieldFull :: bool
  nextCard :: nat
  nextPlaceholder :: nat
  now :: nat
  timers :: "(nat \<times> nat) list"
  nextTimer :: nat

definition bindE :: "js_error + 'a \<Rightarrow> ('a \<Rightarrow> js_error + 'b) \<Rightarrow> js_error + 'b" where
  "bindE m f = (case m of Inl e \<Rightarrow> Inl e | Inr x \<Rightarrow> f x)"

text \<open>\<^verbatim>\<open>new HolographicEffect(v)\<close> inside page code: an exception leaves the handler.\<close>

definition try_new :: "js_value \<Rightarrow> page \<Rightarrow> js_error + (nat \<times> page)" where
  "try_new v s = (case HolographicEffect_new v no_opts s of
       (Inl e, s') \<Rightarrow> Inl e
     | (Inr r, s') \<Rightarrow> Inr (r, s'))"

subsection \<open>Arrays\<close>

text \<open>\<open>Array.prototype.indexOf\<close>: the first index, or -1.\<close>

fun indexOf :: "'a list \<Rightarrow> 'a \<Rightarrow> int" where
  "indexOf [] x = - 1"
| "indexOf (y # ys) x =
     (if y = x then 0 else (let i = indexOf ys x in if i < 0 then - 1 else i + 1))"

text \<open>
  \<open>xs.splice(start, 1)\<close>: a negative start counts from the end, a start beyond the end
  removes nothing.
\<close>

definition splice1 :: "int \<Rightarrow> 'a list \<Rightarrow> 'a list" where
  "splice1 start xs =
     (let n = int (length xs);
          k = (if start < 0 then max (n + start) 0 else min start n)
      in take (nat k) xs @ drop (Suc (nat k)) xs)"

subsection \<open>The DOM operations used on slots and placeholders\<close>

datatype container = HandC | PlayC | BodyC

fun children :: "container \<Rightarrow> page \<Rightarrow> elem list" where
  "children HandC s = handChildren s"
| "children PlayC s = playChildren s"
| "children BodyC s = bodyChildren s"

fun set_children :: "container \<Rightarrow> elem list \<Rightarrow> page \<Rightarrow> page" where
  "set_children HandC es s = s\<lparr> handChildren := es \<rparr>"
| "set_children PlayC es s = s\<lparr> playChildren := es \<rparr>"
| "set_children BodyC es s = s\<lparr> bodyChildren := es \<rparr>"

definition parentNode :: "elem \<Rightarrow> page \<Rightarrow> container option" where
  "parentNode e s =
     (if e \<in> set (handChildren s) then Some HandC
      else if e \<in> set (playChildren s) then Some PlayC
      else if e \<in> set (bodyChildren s) then Some BodyC
      else None)"

text \<open>\<open>e.remove()\<close>, also the first step of every insertion of an element that has a parent.\<close>

definition detach :: "elem \<Rightarrow> page \<Rightarrow> page" where
  "detach e s = s\<lparr> handChildren := removeAll e (handChildren s),
                    playChildren := removeAll e (playChildren s),
                    bodyChildren := removeAll e (bodyChildren s) \<rparr>"

definition appendChild :: "container \<Rightarrow> elem \<Rightarrow> page \<Rightarrow> page" where
  "appendChild p e s = (let s1 = detach e s in set_children p (children p s1 @ [e]) s1)"

fun insert_before :: "'a \<Rightarrow> 'a \<Rightarrow> 'a list \<Rightarrow> 'a list" where
  "insert_before new ref [] = []"
| "insert_before new ref (x # xs) =
     (if x = ref then new # x # xs else x # insert_before new ref xs)"

text \<open>
  \<open>p.insertBefore(new, ref)\<close> with a reference node: NotFoundError unless \<open>ref\<close> is a
  child of \<open>p\<close>; inserting a node before itself changes nothing.
\<close>

definition insertBefore :: "container \<Rightarrow> elem \<Rightarrow> elem \<Rightarrow> page \<Rightarrow> js_error + page" where
  "insertBefore p new ref s =
     (if ref \<notin> set (children p s) then Inl NotFoundError
      else if new = ref then Inr s
      else let s1 = detach new s
           in Inr (set_children p (insert_before new ref (children p s1)) s1))"

fun next_after :: "'a \<Rightarrow> 'a list \<Rightarrow> 'a option" where
  "next_after e [] = None"
| "next_after e [x] = None"
| "next_after e (x # y # xs) = (if x = e then Some y else next_after e (y # xs))"

definition nextSibling :: "elem \<Rightarrow> page \<Rightarrow> elem option" where
  "nextSibling e s =
     (case parentNode e s of None \<Rightarrow> None | Some p \<Rightarrow> next_after e (children p s))"

fun is_slot :: "elem \<Rightarrow> bool" where
  "is_slot (SlotEl c) = True"
| "is_slot e = False"

subsection \<open>Timers\<close>

definition setTimeout :: "nat \<Rightarrow> page \<Rightarrow> nat \<times> page" where
  "setTimeout delay s =
     (nextTimer s, s\<lparr> timers := timers s @ [(nextTimer s, now s + delay)],
                       nextTimer := Suc (nextTimer s) \<rparr>)"

definition clearTimeout :: "nat \<Rightarrow> page \<Rightarrow> page" where
  "clearTimeout tid s = s\<lparr> timers := filter (\<lambda>tm. fst tm \<noteq> tid) (timers s) \<rparr>"

subsection \<open>Cards\<close>

definition createCard :: "nat \<Rightarrow> nat \<Rightarrow> page \<Rightarrow> js_error + (nat \<times> page)" where
  "createCard index tot s =
     (let c = nextCard s;
          s1 = s\<lparr> nextCard := Suc c,
                  prop_i := (prop_i s)(c := index), prop_n := (prop_n s)(c := tot) \<rparr>
      in bindE (try_new (JSElement (InnerEl c)) s1)
           (\<lambda>(r, s2). Inr (c, s2\<lparr> holoEffect := (holoEffect s2)(c := r) \<rparr>)))"

fun initHand_from :: "nat list \<Rightarrow> page \<Rightarrow> js_error + page" where
  "initHand_from [] s = Inr s"
| "initHand_from (i # is) s =
     bindE (createCard i CARD_COUNT s)
       (\<lambda>(c, s1). initHand_from is (appendChild HandC (SlotEl c) (s1\<lparr> cards := cards s1 @ [c] \<rparr>)))"

definition initHand :: "page \<Rightarrow> js_error + page" where
  "initHand s = initHand_from [0 ..< CARD_COUNT] s"

fun reindex_from :: "nat \<Rightarrow> nat \<Rightarrow> nat list \<Rightarrow> page \<Rightarrow> page" where
  "reindex_from i n [] s = s"
| "reindex_from i n (c # cs) s =
     reindex_from (Suc i) n cs
       (s\<lparr> prop_i := (prop_i s)(c := i), prop_n := (prop_n s)(c := n) \<rparr>)"

definition reindexHand :: "page \<Rightarrow> page" where
  "reindexHand s = reindex_from 0 (length (cards s)) (cards s) s"

subsection \<open>Layout toggle, lightbox\<close>

definition toggle_click :: "page \<Rightarrow> page" where
  "toggle_click s = (let f = \<not> isFan s in s\<lparr> isFan := f, handFlat := \<not> f \<rparr>)"

definition openLightbox :: "page \<Rightarrow> js_error + page" where
  "openLightbox s =
     bindE (try_new (JSElement LightboxCardEl) (s\<lparr> lightboxActive := True \<rparr>))
       (\<lambda>(r, s1). Inr (s1\<lparr> lightboxEffect := Some r \<rparr>))"

definition closeLightbox :: "page \<Rightarrow> page" where
  "closeLightbox s =
     (let s1 = s\<lparr> lightboxActive := False \<rparr>
      in case lightboxEffect s1 of
           None \<Rightarrow> s1
         | Some r \<Rightarrow> (destroy r s1)\<lparr> lightboxEffect := None \<rparr>)"

text \<open>The click listener of the lightbox: \<open>on_target\<close> says that the target is the backdrop or the card frame.\<close>

definition lightbox_click :: "bool \<Rightarrow> page \<Rightarrow> page" where
  "lightbox_click on_target s = (if on_target then closeLightbox s else s)"

subsection \<open>Reset\<close>

text \<open>The click listener of the reset button: the \<open>while\<close> loop, then \<open>reindexHand\<close>.\<close>

function reset_loop :: "page \<Rightarrow> js_error + page" where
  "reset_loop s =
     (if length (playedCards s) > 0
      then let c = last (playedCards s);
               s1 = s\<lparr> playedCards := butlast (playedCards s) \<rparr>;
               s2 = destroy (holoEffect s1 c) s1;
               s3 = appendChild HandC (SlotEl c) s2;
               s4 = s3\<lparr> cards := cards s3 @ [c] \<rparr>
           in case try_new (JSElement (InnerEl c)) s4 of
                Inl e \<Rightarrow> Inl e
              | Inr (r, s5) \<Rightarrow> reset_loop (s5\<lparr> holoEffect := (holoEffect s5)(c := r) \<rparr>)
      else Inr s)"
  by pat_completeness auto
termination
proof (relation "measure (\<lambda>s. length (playedCards s))")
  show "wf (measure (\<lambda>s. length (playedCards s)))"
    by simp
next
  fix s :: page and c s1 s2 s3 s4 x2 r s5
  assume pos: "0 < length (playedCards s)"
    and s1: "s1 = s\<lparr> playedCards := butlast (playedCards s) \<rparr>"
    and s2: "s2 = destroy (holoEffect s1 c) s1"
    and s3: "s3 = appendChild HandC (SlotEl c) s2"
    and s4: "s4 = s3\<lparr> cards := cards s3 @ [c] \<rparr>"
    and new: "try_new (JSElement (InnerEl c)) s4 = Inr x2"
    and x2: "(r, s5) = x2"
  have "playedCards s4 = butlast (playedCards s)"
    by (simp add: s1 s2 s3 s4 destroy_def upd_obj_def appendChild_def detach_def Let_def)
  moreover have "playedCards s5 = playedCards s4"
  proof -
    have mk: "playedCards (makeLayer q k w) = playedCards w" for q k and w :: page
      by (simp add: makeLayer_def upd_obj_def Let_def)
    have su: "playedCards (holo_setup q w) = playedCards w" for q and w :: page
      by (simp add: holo_setup_def mk Let_def)
    have bi: "playedCards (bindEvents q w) = playedCards w" for q and w :: page
      by (simp add: bindEvents_def Let_def)
    have re: "playedCards (render q w) = playedCards w" for q and w :: page
      by (simp add: render_def Let_def)
    show ?thesis
      using new x2 [symmetric]
      by (auto simp: try_new_def HolographicEffect_new_def su bi re Let_def
          split: if_splits prod.splits sum.splits)
  qed
  ultimately show "(s5\<lparr> holoEffect := (holoEffect s5)(c := r) \<rparr>, s) \<in> measure (\<lambda>s. length (playedCards s))"
    using pos by simp
qed

declare reset_loop.simps [simp del]

definition reset_click :: "page \<Rightarrow> js_error + page" where
  "reset_click s = bindE (reset_loop s) (\<lambda>s1. Inr (reindexHand s1))"

subsection \<open>The pointer state machine\<close>

text \<open>
  What the layout engine reports when a handler asks for bounding rectangles: the play
  area's, the hand's and each slot's. It is an input of the handlers.
\<close>

record layout =
  playRect :: rect
  handRect :: rect
  slotRect :: "nat \<Rightarrow> rect"

text \<open>
  \<^verbatim>\<open>e.target.closest('.hand .card-slot')\<close>: \<open>t\<close> is the slot or placeholder that the
  event's target lies in, if any; the result is a slot inside the hand.
\<close>

definition closest_hand_slot :: "elem option \<Rightarrow> page \<Rightarrow> elem option" where
  "closest_hand_slot t s =
     (case t of
        Some (SlotEl c) \<Rightarrow> if SlotEl c \<in> set (handChildren s) then Some (SlotEl c) else None
      | _ \<Rightarrow> None)"

definition cleanupPointer :: "bool \<Rightarrow> page \<Rightarrow> page" where
  "cleanupPointer clearTimer s =
     (case pointerState s of
        None \<Rightarrow> s
      | Some ps \<Rightarrow>
          (let s1 = (if clearTimer then clearTimeout (holdTimer ps) s else s)
           in s1\<lparr> pointerState := None \<rparr>))"

text \<open>The callback handed to \<open>setTimeout\<close> by the pointerdown listener.\<close>

definition hold_callback :: "page \<Rightarrow> js_error + page" where
  "hold_callback s =
     (case pointerState s of
        None \<Rightarrow> Inr s
      | Some ps \<Rightarrow>
          if \<not> isDragging ps then openLightbox (cleanupPointer True s) else Inr s)"

definition on_pointerdown :: "elem option \<Rightarrow> int \<Rightarrow> real \<Rightarrow> real \<Rightarrow> layout \<Rightarrow> page \<Rightarrow> page" where
  "on_pointerdown t pid x y lay s =
     (case closest_hand_slot t s of
        None \<Rightarrow> s
      | Some slot \<Rightarrow>
          (case find (\<lambda>c. SlotEl c = slot) (cards s) of
             None \<Rightarrow> s
           | Some c \<Rightarrow>
               (let bounds = slotRect lay c;
                    (tid, s1) = setTimeout HOLD_DELAY s
                in s1\<lparr> pointerState := Some \<lparr> card_ref = c, pointerId = pid,
                        startX = x, startY = y,
                        offsetX = x - r_left bounds, offsetY = y - r_top bounds,
                        isDragging = False, holdTimer = tid, placeholder = None,
                        originalIndex = indexOf (cards s1) c \<rparr> \<rparr>)))"

definition startDrag :: "page \<Rightarrow> js_error + page" where
  "startDrag s =
     (case pointerState s of
        None \<Rightarrow> Inl NullError
      | Some ps \<Rightarrow>
          (let c = card_ref ps;
               s1 = s\<lparr> pointerState := Some (ps\<lparr> isDragging := True \<rparr>) \<rparr>;
               s2 = destroy (holoEffect s1 c) s1;
               p = nextPlaceholder s2;
               s3 = s2\<lparr> nextPlaceholder := Suc p \<rparr>
           in case parentNode (SlotEl c) s3 of
                None \<Rightarrow> Inl NullError
              | Some par \<Rightarrow>
                  bindE (insertBefore par (PlaceholderEl p) (SlotEl c) s3)
                    (\<lambda>s4. let s5 = s4\<lparr> pointerState :=
                                   map_option (\<lambda>q. q\<lparr> placeholder := Some p \<rparr>) (pointerState s4) \<rparr>
                          in Inr (appendChild BodyC (SlotEl c) s5))))"

definition over :: "rect \<Rightarrow> real \<Rightarrow> real \<Rightarrow> bool" where
  "over r x y = (x \<ge> r_left r \<and> x \<le> r_right r \<and> y \<ge> r_top r \<and> y \<le> r_bottom r)"

definition overHand :: "rect \<Rightarrow> real \<Rightarrow> real \<Rightarrow> bool" where
  "overHand r x y =
     (x \<ge> r_left r \<and> x \<le> r_right r \<and> y \<ge> r_top r - 60 \<and> y \<le> r_bottom r + 20)"

text \<open>The \<open>for\<close> loop of \<open>updateDrag\<close> over the \<open>cards\<close> array.\<close>

fun findInsertBefore :: "(nat \<Rightarrow> rect) \<Rightarrow> nat \<Rightarrow> real \<Rightarrow> nat list \<Rightarrow> nat option" where
  "findInsertBefore sr dragged x [] = None"
| "findInsertBefore sr dragged x (c # cs) =
     (if c = dragged then findInsertBefore sr dragged x cs
      else let r = sr c; midX = r_left r + r_width r / 2
           in if x < midX then Some c else findInsertBefore sr dragged x cs)"

definition updateDrag :: "real \<Rightarrow> real \<Rightarrow> layout \<Rightarrow> page \<Rightarrow> js_error + page" where
  "updateDrag x y lay s =
     (case pointerState s of
        None \<Rightarrow> Inl NullError
      | Some ps \<Rightarrow>
          (let overPlay = over (playRect lay) x y;
               full = (length (playedCards s) \<ge> MAX_FIELD);
               s1 = s\<lparr> dropHover := (overPlay \<and> \<not> full), fieldFull := (overPlay \<and> full) \<rparr>
           in if \<not> overPlay
              then if overHand (handRect lay) x y
                   then (case placeholder ps of
                           None \<Rightarrow> Inl NullError
                         | Some p \<Rightarrow>
                             (case findInsertBefore (slotRect lay) (card_ref ps) x (cards s1) of
                                Some c \<Rightarrow> insertBefore HandC (PlaceholderEl p) (SlotEl c) s1
                              | None \<Rightarrow> Inr (appendChild HandC (PlaceholderEl p) s1)))
                   else Inr s1
              else Inr s1))"

definition endDrag :: "real \<Rightarrow> real \<Rightarrow> layout \<Rightarrow> page \<Rightarrow> js_error + page" where
  "endDrag x y lay s =
     (case pointerState s of
        None \<Rightarrow> Inl NullError
      | Some ps \<Rightarrow>
          (let c = card_ref ps;
               overPlay = over (playRect lay) x y;
               s1 = s\<lparr> dropHover := False, fieldFull := False \<rparr>;
               full = (length (playedCards s1) \<ge> MAX_FIELD)
           in case placeholder ps of
                None \<Rightarrow> Inl NullError
              | Some p \<Rightarrow>
                  if overPlay \<and> \<not> full
                  then (let s2 = detach (PlaceholderEl p) s1;
                            s3 = s2\<lparr> cards := splice1 (indexOf (cards s2) c) (cards s2) \<rparr>;
                            s4 = s3\<lparr> prop_i := (prop_i s3)(c := 0), prop_n := (prop_n s3)(c := 1) \<rparr>;
                            s5 = appendChild PlayC (SlotEl c) s4;
                            s6 = s5\<lparr> playedCards := playedCards s5 @ [c] \<rparr>
                        in bindE (try_new (JSElement (InnerEl c)) s6)
                             (\<lambda>(r, s7). Inr (cleanupPointer False
                                (reindexHand (s7\<lparr> holoEffect := (holoEffect s7)(c := r) \<rparr>)))))
                  else (let nxt = nextSibling (PlaceholderEl p) s1;
                            s2 = detach (PlaceholderEl p) s1
                        in bindE (case nxt of
                                    Some n \<Rightarrow> insertBefore HandC (SlotEl c) n s2
                                  | None \<Rightarrow> Inr (appendChild HandC (SlotEl c) s2))
                             (\<lambda>s3. let slotOrder = filter is_slot (handChildren s3);
                                       s4 = s3\<lparr> cards :=
                                              sort_key (\<lambda>a. indexOf slotOrder (SlotEl a)) (cards s3) \<rparr>
                                   in bindE (try_new (JSElement (InnerEl c)) s4)
                                        (\<lambda>(r, s5). Inr (cleanupPointer False
                                           (reindexHand (s5\<lparr> holoEffect := (holoEffect s5)(c := r) \<rparr>))))))))"

definition on_pointermove :: "real \<Rightarrow> real \<Rightarrow> layout \<Rightarrow> page \<Rightarrow> js_error + page" where
  "on_pointermove x y lay s =
     (case pointerState s of
        None \<Rightarrow> Inr s
      | Some ps \<Rightarrow>
          (let dx = x - startX ps;
               dy = y - startY ps;
               dist = sqrt (dx * dx + dy * dy)
           in bindE (if \<not> isDragging ps \<and> dist > DRAG_THRESHOLD
                     then startDrag (clearTimeout (holdTimer ps) s)
                     else Inr s)
                (\<lambda>s1. case pointerState s1 of
                        None \<Rightarrow> Inl NullError
                      | Some ps1 \<Rightarrow> if isDragging ps1 then updateDrag x y lay s1 else Inr s1)))"

definition on_pointerup :: "real \<Rightarrow> real \<Rightarrow> layout \<Rightarrow> page \<Rightarrow> js_error + page" where
  "on_pointerup x y lay s =
     (case pointerState s of
        None \<Rightarrow> Inr s
      | Some ps \<Rightarrow>
          if isDragging ps then endDrag x y lay s else Inr (cleanupPointer True s))"

subsection \<open>The event loop\<close>

text \<open>
  The browser runs one handler at a time. An event arrives with its time stamp; the
  timeouts that are due by then run first, in the order of their due times (ties in the
  order they were set), each only if it is still armed when its turn comes.
\<close>

datatype event =
    PointerDown "elem option" int real real layout
  | PointerMove real real layout
  | PointerUp real real layout
  | ResetClick
  | ToggleClick
  | LightboxClick bool

fun handle :: "event \<Rightarrow> page \<Rightarrow> js_error + page" where
  "handle (PointerDown t pid x y lay) s = Inr (on_pointerdown t pid x y lay s)"
| "handle (PointerMove x y lay) s = on_pointermove x y lay s"
| "handle (PointerUp x y lay) s = on_pointerup x y lay s"
| "handle ResetClick s = reset_click s"
| "handle ToggleClick s = Inr (toggle_click s)"
| "handle (LightboxClick b) s = Inr (lightbox_click b s)"

definition due_timers :: "nat \<Rightarrow> page \<Rightarrow> nat list" where
  "due_timers t s = map fst (sort_key snd (filter (\<lambda>tm. snd tm \<le> t) (timers s)))"

definition fire :: "nat \<Rightarrow> page \<Rightarrow> js_error + page" where
  "fire tid s =
     (if tid \<in> set (map fst (timers s))
      then hold_callback (s\<lparr> timers := filter (\<lambda>tm. fst tm \<noteq> tid) (timers s) \<rparr>)
      else Inr s)"

fun fire_all :: "nat list \<Rightarrow> page \<Rightarrow> js_error + page" where
  "fire_all [] s = Inr s"
| "fire_all (tid # tids) s = bindE (fire tid s) (fire_all tids)"

definition advance :: "nat \<Rightarrow> page \<Rightarrow> js_error + page" where
  "advance t s =
     bindE (fire_all (due_timers t s) s) (\<lambda>s1. Inr (s1\<lparr> now := max t (now s1) \<rparr>))"

definition deliver :: "nat \<times> event \<Rightarrow> page \<Rightarrow> js_error + page" where
  "deliver te s = bindE (advance (fst te) s) (handle (snd te))"

fun run :: "(nat \<times> event) list \<Rightarrow> page \<Rightarrow> js_error + page" where
  "run [] s = Inr s"
| "run (te # tes) s = bindE (deliver te s) (run tes)"

subsection \<open>The hold callback, statement by statement\<close>

text \<open>
  The functions above give the state that a handler leaves. The claim about the hold
  callback is about the order of its statements, so the same code is read a second
  time, as the list of the states after each statement that is executed:
  \<^verbatim>\<open>clearTimeout(pointerState.holdTimer)\<close> and \<^verbatim>\<open>pointerState = null\<close> in
  \<open>cleanupPointer\<close>, \<^verbatim>\<open>lightbox.classList.add('active')\<close> and
  \<^verbatim>\<open>lightboxEffect = new HolographicEffect(lightboxCard)\<close> in \<open>openLightbox\<close>. A
  statement that throws ends the list.
\<close>

definition cleanupPointer_steps :: "bool \<Rightarrow> page \<Rightarrow> page list" where
  "cleanupPointer_steps clearTimer s =
     (case pointerState s of
        None \<Rightarrow> []
      | Some ps \<Rightarrow>
          (let s1 = (if clearTimer then clearTimeout (holdTimer ps) s else s)
           in (if clearTimer then [s1] else []) @ [s1\<lparr> pointerState := None \<rparr>]))"

definition openLightbox_steps :: "page \<Rightarrow> page list" where
  "openLightbox_steps s =
     (let s1 = s\<lparr> lightboxActive := True \<rparr>
      in s1 # (case try_new (JSElement LightboxCardEl) s1 of
                 Inl e \<Rightarrow> []
               | Inr (r, s2) \<Rightarrow> [s2\<lparr> lightboxEffect := Some r \<rparr>]))"

definition hold_callback_steps :: "page \<Rightarrow> page list" where
  "hold_callback_steps s =
     (case pointerState s of
        None \<Rightarrow> []
      | Some ps \<Rightarrow>
          if \<not> isDragging ps
          then (let cleared = cleanupPointer_steps True s
                in cleared @ openLightbox_steps (last (s # cleared)))
          else [])"

text \<open>
  The states that the timeouts due by \<open>t\<close> pass through: for each one that is still
  armed, the state in which its callback starts (the timeout is no longer armed), then
  the callback's states.
\<close>

definition fire_steps :: "nat \<Rightarrow> page \<Rightarrow> page list" where
  "fire_steps tid s =
     (if tid \<in> set (map fst (timers s))
      then (let s0 = s\<lparr> timers := filter (\<lambda>tm. fst tm \<noteq> tid) (timers s) \<rparr>
            in s0 # hold_callback_steps s0)
      else [])"

fun fire_all_steps :: "nat list \<Rightarrow> page \<Rightarrow> page list" where
  "fire_all_steps [] s = []"
| "fire_all_steps (tid # tids) s =
     fire_steps tid s @ (case fire tid s of Inl e \<Rightarrow> [] | Inr s1 \<Rightarrow> fire_all_steps tids s1)"

definition advance_steps :: "nat \<Rightarrow> page \<Rightarrow> page list" where
  "advance_steps t s = fire_all_steps (due_timers t s) s"

subsection \<open>The page at load time\<close>

definition blank_obj :: holo_obj where
  "blank_obj = new_obj LightboxCardEl no_opts False"

definition empty_page :: "bool \<Rightarrow> page" where
  "empty_page reduced = \<lparr> prefersReducedMotion = reduced, heap = (\<lambda>r. blank_obj), nextRef = 0,
     listeners = (\<lambda>e. []), overlays = (\<lambda>e. []), transform = (\<lambda>e. None),
     transition = (\<lambda>e. []), frames = [], nextFrame = 0,
     cards = [], playedCards = [], isFan = True, lightboxEffect = None,
     pointerState = None, holoEffect = (\<lambda>c. 0), prop_i = (\<lambda>c. 0), prop_n = (\<lambda>c. 0),
     handChildren = [], playChildren = [], bodyChildren = [],
     lightboxActive = False, handFlat = False, dropHover = False, fieldFull = False,
     nextCard = 0, nextPlaceholder = 0, now = 0, timers = [], nextTimer = 0 \<rparr>"

definition init_page :: "bool \<Rightarrow> js_error + page" where
  "init_page reduced = initHand (empty_page reduced)"


section \<open>Sample inputs\<close>

text \<open>A 100 by 100 element at the origin and a world holding one default instance on the lightbox card.\<close>

definition demo_bounds :: rect where
  "demo_bounds = \<lparr> r_left = 0, r_top = 0, r_width = 100, r_height = 100 \<rparr>"

definition demo_world :: page where
  "demo_world = snd (HolographicEffect_new (JSElement LightboxCardEl) no_opts (empty_page False))"

text \<open>
  An element 15.6 px wide with its left edge at 0.5 px, and the pointer at
  \<^verbatim>\<open>rect.right\<close>, which is 16.1: the fields are the doubles nearest to these decimals.
\<close>

definition edge_bounds :: rect where
  "edge_bounds = \<lparr> r_left = 1 / 2, r_top = 0, r_width = 8782019273372467 / 2 ^ 49, r_height = 100 \<rparr>"

definition right_edge_x :: real where
  "right_edge_x = 2265873562520781 / 2 ^ 47"

text \<open>The reals that are finite doubles.\<close>

definition is_double :: "real \<Rightarrow> bool" where
  "is_double v \<longleftrightarrow> round_double v = v \<and> \<bar>v\<bar> \<le> MAX_VALUE"

text \<open>The page after a successful \<^verbatim>\<open>new HolographicEffect(e)\<close> with default options.\<close>

definition attached :: "elem \<Rightarrow> page \<Rightarrow> page" where
  "attached e s = snd (HolographicEffect_new (JSElement e) no_opts s)"

text \<open>One iteration of the loop of the reset listener, for a table that is not empty.\<close>

definition reset_step :: "page \<Rightarrow> page" where
  "reset_step s =
     (let c = last (playedCards s);
          s1 = s\<lparr> playedCards := butlast (playedCards s) \<rparr>;
          s2 = destroy (holoEffect s1 c) s1;
          s3 = appendChild HandC (SlotEl c) s2;
          s4 = s3\<lparr> cards := cards s3 @ [c] \<rparr>;
          s5 = attached (InnerEl c) s4
      in s5\<lparr> holoEffect := (holoEffect s5)(c := nextRef s4) \<rparr>)"

text \<open>
  The hand is indexed when the custom properties of its slots are what \<open>reindexHand\<close>
  last wrote: \<open>--i\<close> the position in \<open>cards\<close>, \<open>--n\<close> the number of cards.
\<close>

definition indexed :: "page \<Rightarrow> bool" where
  "indexed s \<longleftrightarrow> map (prop_i s) (cards s) = [0 ..< length (cards s)] \<and>
     (\<forall>c \<in> set (cards s). prop_n s c = length (cards s))"

text \<open>
  The states the page is in under single-pointer input. \<open>tidy\<close>: the two arrays are
  duplicate free and disjoint, the table's children are the played slots, the table is
  within its capacity, the hand is indexed and every card holds an instance that was
  constructed. \<open>rest_dom\<close>: no card is lifted, the hand's children are the slots of
  \<open>cards\<close> in order. \<open>drag_dom c p\<close>: card \<open>c\<close> floats in the body and placeholder \<open>p\<close>
  stands among the other slots of the hand, which are in the order of \<open>cards\<close>.
\<close>

definition tidy :: "page \<Rightarrow> bool" where
  "tidy s \<longleftrightarrow> distinct (cards s) \<and> distinct (playedCards s) \<and>
     set (cards s) \<inter> set (playedCards s) = {} \<and>
     playChildren s = map SlotEl (playedCards s) \<and>
     length (playedCards s) \<le> MAX_FIELD \<and> indexed s \<and>
     (\<forall>c \<in> set (cards s) \<union> set (playedCards s). holoEffect s c < nextRef s)"

definition rest_dom :: "page \<Rightarrow> bool" where
  "rest_dom s \<longleftrightarrow> handChildren s = map SlotEl (cards s) \<and> bodyChildren s = []"

definition drag_dom :: "page \<Rightarrow> nat \<Rightarrow> nat \<Rightarrow> bool" where
  "drag_dom s c p \<longleftrightarrow> distinct (handChildren s) \<and>
     PlaceholderEl p \<in> set (handChildren s) \<and>
     removeAll (PlaceholderEl p) (handChildren s) = map SlotEl (removeAll c (cards s)) \<and>
     bodyChildren s = [SlotEl c]"

definition wf_page :: "page \<Rightarrow> bool" where
  "wf_page s \<longleftrightarrow> tidy s \<and>
     (case pointerState s of
        None \<Rightarrow> rest_dom s
      | Some ps \<Rightarrow> card_ref ps \<in> set (cards s) \<and>
          (if isDragging ps
           then (case placeholder ps of None \<Rightarrow> False | Some p \<Rightarrow> drag_dom s (card_ref ps) p)
           else placeholder ps = None \<and> rest_dom s))"

text \<open>A drag of card \<open>c\<close> with placeholder \<open>p\<close> is in progress.\<close>

definition in_drag :: "page \<Rightarrow> nat \<Rightarrow> nat \<Rightarrow> bool" where
  "in_drag s c p \<longleftrightarrow> wf_page s \<and>
     (case pointerState s of
        None \<Rightarrow> False
      | Some ps \<Rightarrow> isDragging ps \<and> card_ref ps = c \<and> placeholder ps = Some p)"

text \<open>A pointer is down on card \<open>c\<close> and has neither moved away nor been held long enough.\<close>

definition pending :: "page \<Rightarrow> nat \<Rightarrow> bool" where
  "pending s c \<longleftrightarrow> wf_page s \<and>
     (case pointerState s of
        None \<Rightarrow> False
      | Some ps \<Rightarrow> \<not> isDragging ps \<and> card_ref ps = c)"

text \<open>The horizontal midpoint of a slot, as \<open>updateDrag\<close> computes it.\<close>

definition slot_midX :: "layout \<Rightarrow> nat \<Rightarrow> real" where
  "slot_midX lay c = r_left (slotRect lay c) + r_width (slotRect lay c) / 2"

text \<open>
  Sample pages. \<open>sample_hand\<close> is the page at load time, six cards in the hand
  (\<open>loaded_upto k\<close> is the page after \<open>initHand\<close> has created \<open>k\<close> of them);
  \<open>sample_drag\<close> is what a pointer-down on card 2 at (250, 560) and a pointer-move to
  (250, 480) ten milliseconds later make of it: card 2 lifted, its instance destroyed,
  its placeholder in its place; \<open>sample_table\<close> has cards 3, 4 and 5 on the table, each
  with the instance it got when it was dropped; \<open>sample_full_drag\<close> is \<open>sample_table\<close>
  with card 2 lifted and its placeholder between cards 0 and 1. \<open>sample_layout\<close> puts
  the table above the hand, closer than the 60 px by which the hand's region is enlarged.
\<close>

definition sample_obj :: "nat \<Rightarrow> holo_obj" where
  "sample_obj c = (new_obj (InnerEl c) no_opts False)\<lparr> hlayers := [HoloColor, HoloShimmer, HoloGlare] \<rparr>"

definition sample_hand :: page where
  "sample_hand = (empty_page False)\<lparr>
     heap := (\<lambda>r. if r < 6 then sample_obj r else blank_obj), nextRef := 6,
     listeners := (\<lambda>e. case e of InnerEl c \<Rightarrow> (if c < 6 then [c] else []) | _ \<Rightarrow> []),
     overlays := (\<lambda>e. case e of
         InnerEl c \<Rightarrow> (if c < 6 then [(c, HoloColor), (c, HoloShimmer), (c, HoloGlare)] else [])
       | _ \<Rightarrow> []),
     transform := (\<lambda>e. case e of InnerEl c \<Rightarrow> (if c < 6 then Some (1000, 0, 0) else None) | _ \<Rightarrow> None),
     cards := [0, 1, 2, 3, 4, 5],
     holoEffect := (\<lambda>c. if c < 6 then c else 0),
     prop_i := (\<lambda>c. if c < 6 then c else 0),
     prop_n := (\<lambda>c. if c < 6 then 6 else 0),
     handChildren := [SlotEl 0, SlotEl 1, SlotEl 2, SlotEl 3, SlotEl 4, SlotEl 5],
     nextCard := 6 \<rparr>"

definition sample_session :: "nat \<Rightarrow> bool \<Rightarrow> nat option \<Rightarrow> pointer_state" where
  "sample_session tid dragging ph = \<lparr> card_ref = 2, pointerId = 1, startX = 250, startY = 560,
     offsetX = 50, offsetY = 60, isDragging = dragging, holdTimer = tid, placeholder = ph,
     originalIndex = 2 \<rparr>"

definition sample_drag :: page where
  "sample_drag = sample_hand\<lparr>
     heap := (heap sample_hand)(2 := (sample_obj 2)\<lparr> hlayers := [] \<rparr>),
     listeners := (listeners sample_hand)(InnerEl 2 := []),
     overlays := (overlays sample_hand)(InnerEl 2 := []),
     transform := (transform sample_hand)(InnerEl 2 := None),
     pointerState := Some (sample_session 0 True (Some 0)),
     handChildren := [SlotEl 0, SlotEl 1, PlaceholderEl 0, SlotEl 3, SlotEl 4, SlotEl 5],
     bodyChildren := [SlotEl 2], nextPlaceholder := 1, now := 10, nextTimer := 1 \<rparr>"

definition sample_table :: page where
  "sample_table = sample_hand\<lparr>
     nextRef := 9,
     cards := [0, 1, 2], playedCards := [3, 4, 5],
     holoEffect := (\<lambda>c. if c < 3 then c else if c < 6 then c + 3 else 0),
     prop_i := (\<lambda>c. if c < 3 then c else 0),
     prop_n := (\<lambda>c. if c < 3 then 3 else if c < 6 then 1 else 0),
     handChildren := [SlotEl 0, SlotEl 1, SlotEl 2],
     playChildren := [SlotEl 3, SlotEl 4, SlotEl 5],
     nextPlaceholder := 3, nextTimer := 3 \<rparr>"

definition sample_full_drag :: page where
  "sample_full_drag = sample_table\<lparr>
     pointerState := Some (sample_session 3 True (Some 3)),
     handChildren := [SlotEl 0, PlaceholderEl 3, SlotEl 1],
     bodyChildren := [SlotEl 2], nextPlaceholder := 4, nextTimer := 4 \<rparr>"

definition sample_layout :: layout where
  "sample_layout = \<lparr>
     playRect = \<lparr> r_left = 0, r_top = 200, r_width = 600, r_height = 260 \<rparr>,
     handRect = \<lparr> r_left = 0, r_top = 500, r_width = 600, r_height = 150 \<rparr>,
     slotRect = (\<lambda>c. \<lparr> r_left = 100 * real c, r_top = 500, r_width = 100, r_height = 150 \<rparr>) \<rparr>"

text \<open>
  \<open>within_threshold\<close>: the distance test of the pointermove listener does not pass.
  \<open>quiet\<close>: no drag is in progress, and a session that exists started at the given point.
\<close>

definition within_threshold :: "real \<Rightarrow> real \<Rightarrow> real \<Rightarrow> real \<Rightarrow> bool" where
  "within_threshold x0 y0 x y \<longleftrightarrow>
     \<not> sqrt ((x - x0) * (x - x0) + (y - y0) * (y - y0)) > DRAG_THRESHOLD"

definition quiet :: "real \<Rightarrow> real \<Rightarrow> page \<Rightarrow> bool" where
  "quiet x0 y0 s \<longleftrightarrow>
     (case pointerState s of
        None \<Rightarrow> True
      | Some ps \<Rightarrow> \<not> isDragging ps \<and> startX ps = x0 \<and> startY ps = y0)"

definition same_collections :: "page \<Rightarrow> page \<Rightarrow> bool" where
  "same_collections s s' \<longleftrightarrow> cards s' = cards s \<and> playedCards s' = playedCards s \<and>
     handChildren s' = handChildren s \<and> playChildren s' = playChildren s"

text \<open>A pointermove of a tap: time stamp, position and layout.\<close>

type_synonym move = "nat \<times> real \<times> real \<times> layout"

fun move_event :: "move \<Rightarrow> nat \<times> event" where
  "move_event (t, x, y, lay) = (t, PointerMove x y lay)"

fun move_within :: "real \<Rightarrow> real \<Rightarrow> move \<Rightarrow> bool" where
  "move_within x0 y0 (t, x, y, lay) = within_threshold x0 y0 x y"

text \<open>
  \<open>dragging\<close>: the session is in drag mode. \<open>single_pointer\<close>: the events a single pointer
  can produce in a state; the one exclusion is a second pointer-down while a card is
  being dragged, which the source does not guard against.
\<close>

definition dragging :: "page \<Rightarrow> bool" where
  "dragging s \<longleftrightarrow> (case pointerState s of None \<Rightarrow> False | Some ps \<Rightarrow> isDragging ps)"

fun single_pointer :: "event \<Rightarrow> page \<Rightarrow> bool" where
  "single_pointer (PointerDown tg pid x y lay) s = (\<not> dragging s)"
| "single_pointer ev s = True"

text \<open>A run in which every event is one a single pointer can produce when it arrives.\<close>

fun single_pointer_run :: "(nat \<times> event) list \<Rightarrow> page \<Rightarrow> bool" where
  "single_pointer_run [] s = True"
| "single_pointer_run (te # tes) s =
     (single_pointer (snd te) s \<and>
      (case deliver te s of Inl e \<Rightarrow> True | Inr s1 \<Rightarrow> single_pointer_run tes s1))"

text \<open>Well-formedness up to the indexing of the hand, which the reset loop restores only at its end.\<close>

definition wf_core :: "page \<Rightarrow> bool" where
  "wf_core s \<longleftrightarrow> wf_page (reindexHand s)"

definition loaded_upto :: "nat \<Rightarrow> page" where
  "loaded_upto k = (empty_page False)\<lparr>
     heap := (\<lambda>r. if r < k then sample_obj r else blank_obj), nextRef := k,
     listeners := (\<lambda>e. case e of InnerEl c \<Rightarrow> (if c < k then [c] else []) | _ \<Rightarrow> []),
     overlays := (\<lambda>e. case e of
         InnerEl c \<Rightarrow> (if c < k then [(c, HoloColor), (c, HoloShimmer), (c, HoloGlare)] else [])
       | _ \<Rightarrow> []),
     transform := (\<lambda>e. case e of InnerEl c \<Rightarrow> (if c < k then Some (1000, 0, 0) else None) | _ \<Rightarrow> None),
     cards := [0 ..< k],
     holoEffect := (\<lambda>c. if c < k then c else 0),
     prop_i := (\<lambda>c. if c < k then c else 0),
     prop_n := (\<lambda>c. if c < k then 6 else 0),
     handChildren := map SlotEl [0 ..< k],
     nextCard := k \<rparr>"

text \<open>The three events that play card \<open>c\<close>: down on its slot, a move to the middle of the sample table, up there.\<close>

definition play_events :: "nat \<Rightarrow> nat \<Rightarrow> (nat \<times> event) list" where
  "play_events t c =
     [(t, PointerDown (Some (SlotEl c)) 1 0 0 sample_layout),
      (t, PointerMove 300 300 sample_layout),
      (t, PointerUp 300 300 sample_layout)]"

section \<open>Properties of the effect engine\<close>

lemma hstate_scheduleRender: "hstate (heap (scheduleRender r w) q) = hstate (heap w q)"
  by (simp add: scheduleRender_def upd_obj_def Let_def)

subsection \<open>Rounding to a double\<close>

lemma round_even_int: "round_even (of_int n) = n"
  by (simp add: round_even_def)

lemma round_even_cases: "round_even v = \<lfloor>v\<rfloor> \<or> round_even v = \<lfloor>v\<rfloor> + 1"
  by (simp add: round_even_def Let_def)

lemma round_even_mono:
  assumes "u \<le> v"
  shows "round_even u \<le> round_even v"
proof (cases "\<lfloor>u\<rfloor> = \<lfloor>v\<rfloor>")
  case True
  with assms show ?thesis
    by (auto simp: round_even_def Let_def)
next
  case False
  moreover have "\<lfloor>u\<rfloor> \<le> \<lfloor>v\<rfloor>"
    using assms by (rule floor_mono)
  ultimately have "\<lfloor>u\<rfloor> + 1 \<le> \<lfloor>v\<rfloor>"
    by simp
  moreover have "round_even u \<le> \<lfloor>u\<rfloor> + 1"
    using round_even_cases [of u] by auto
  moreover have "\<lfloor>v\<rfloor> \<le> round_even v"
    using round_even_cases [of v] by auto
  ultimately show ?thesis
    by linarith
qed

lemma two_powi_pos: "(0::real) < 2 powi k"
  by (simp add: zero_less_power_int)

text \<open>Rounding to the multiples of \<open>2 powi k\<close> is monotone and leaves the multiples as they are.\<close>

lemma grid_mono:
  assumes "u \<le> v"
  shows "of_int (round_even (u / 2 powi k)) * 2 powi k \<le>
         of_int (round_even (v / 2 powi k)) * (2::real) powi k"
proof -
  have "u / 2 powi k \<le> v / 2 powi k"
    using assms two_powi_pos [of k] by (simp add: divide_right_mono)
  then have "round_even (u / 2 powi k) \<le> round_even (v / 2 powi k)"
    by (rule round_even_mono)
  then have "(of_int (round_even (u / 2 powi k)) :: real) \<le> of_int (round_even (v / 2 powi k))"
    by simp
  then show ?thesis
    using two_powi_pos [of k] by (simp add: mult_right_mono)
qed

lemma grid_fix:
  "of_int (round_even (of_int n * 2 powi k / 2 powi k)) * 2 powi k = of_int n * (2::real) powi k"
  using two_powi_pos [of k] by (simp add: round_even_int)

lemma ulp_exp_bounds:
  assumes "0 < v"
  shows "v < 2 powi (ulp_exp v + 53)"
    and "- 1074 < ulp_exp v \<Longrightarrow> 2 powi (ulp_exp v + 52) \<le> v"
    and "- 1074 \<le> ulp_exp v"
proof -
  let ?e = "\<lfloor>log 2 v\<rfloor>"
  have e: "2 powr real_of_int ?e \<le> v \<and> v < 2 powr real_of_int (?e + 1)"
    using floor_log_eq_powr_iff [of v 2 ?e] assms by simp
  have p: "2 powr real_of_int i = 2 powi i" for i
    by (rule powr_real_of_int') simp_all
  have lo: "2 powi ?e \<le> v" and hi: "v < 2 powi (?e + 1)"
    using e unfolding p by blast+
  have "?e + 1 \<le> ulp_exp v + 53"
    by (simp add: ulp_exp_def)
  then have "(2::real) powi (?e + 1) \<le> 2 powi (ulp_exp v + 53)"
    by (intro power_int_increasing) simp_all
  with hi show "v < 2 powi (ulp_exp v + 53)"
    by linarith
  show "2 powi (ulp_exp v + 52) \<le> v" if "- 1074 < ulp_exp v"
  proof -
    have "ulp_exp v = ?e - 52"
      using that by (simp add: ulp_exp_def max_def split: if_splits)
    with lo show ?thesis
      by simp
  qed
  show "- 1074 \<le> ulp_exp v"
    by (simp add: ulp_exp_def)
qed

lemma ulp_exp_mono:
  assumes "0 < u" "u \<le> v"
  shows "ulp_exp u \<le> ulp_exp v"
proof -
  have "log 2 u \<le> log 2 v"
    using assms by simp
  then have "\<lfloor>log 2 u\<rfloor> \<le> \<lfloor>log 2 v\<rfloor>"
    by (rule floor_mono)
  then show ?thesis
    by (simp add: ulp_exp_def)
qed

lemma round_magnitude_nonneg:
  assumes "0 \<le> v"
  shows "0 \<le> round_magnitude v"
proof -
  have "0 / 2 powi ulp_exp v \<le> v / 2 powi ulp_exp v"
    using assms two_powi_pos [of "ulp_exp v"] by (intro divide_right_mono) simp_all
  then have "round_even (0 / 2 powi ulp_exp v) \<le> round_even (v / 2 powi ulp_exp v)"
    by (rule round_even_mono)
  then have "0 \<le> round_even (v / 2 powi ulp_exp v)"
    using round_even_int [of 0] by simp
  then show ?thesis
    using two_powi_pos [of "ulp_exp v"] by (simp add: round_magnitude_def)
qed

text \<open>
  Across a change of spacing, the smaller number rounds to at most the power of two
  between the two, and the larger one to at least that.
\<close>

lemma round_magnitude_mono:
  assumes "0 \<le> u" "u \<le> v"
  shows "round_magnitude u \<le> round_magnitude v"
proof (cases "u = 0")
  case True
  then show ?thesis
    using round_magnitude_nonneg [of v] assms by (simp add: round_magnitude_def)
next
  case False
  then have u: "0 < u" and v: "0 < v"
    using assms by simp_all
  let ?j = "ulp_exp u" and ?k = "ulp_exp v"
  have jk: "?j \<le> ?k"
    using u assms(2) by (rule ulp_exp_mono)
  have ru: "round_magnitude u = of_int (round_even (u / 2 powi ?j)) * 2 powi ?j"
    and rv: "round_magnitude v = of_int (round_even (v / 2 powi ?k)) * 2 powi ?k"
    using u v by (simp_all add: round_magnitude_def)
  show ?thesis
  proof (cases "?j = ?k")
    case True
    show ?thesis
      unfolding ru rv True by (rule grid_mono [OF assms(2)])
  next
    case False
    with jk have lt: "?j < ?k"
      by simp
    have "- 1074 \<le> ?j"
      using u by (rule ulp_exp_bounds(3))
    with lt have "- 1074 < ?k"
      by simp
    with v have lo: "2 powi (?k + 52) \<le> v"
      by (rule ulp_exp_bounds(2))
    have hi: "u \<le> 2 powi (?j + 53)"
      using ulp_exp_bounds(1) [OF u] by simp
    have top: "(2::real) powi (?j + 53) = of_int (2 ^ 53) * 2 powi ?j"
      by (simp add: power_int_add)
    have bot: "(2::real) powi (?k + 52) = of_int (2 ^ 52) * 2 powi ?k"
      by (simp add: power_int_add)
    have "round_magnitude u \<le>
        of_int (round_even (of_int (2 ^ 53) * 2 powi ?j / 2 powi ?j)) * 2 powi ?j"
      unfolding ru using hi unfolding top by (rule grid_mono)
    also have "\<dots> = 2 powi (?j + 53)"
      unfolding top by (rule grid_fix)
    also have "\<dots> \<le> 2 powi (?k + 52)"
      using lt by (intro power_int_increasing) simp_all
    also have "\<dots> = of_int (round_even (of_int (2 ^ 52) * 2 powi ?k / 2 powi ?k)) * 2 powi ?k"
      unfolding bot by (rule grid_fix [symmetric])
    also have "\<dots> \<le> round_magnitude v"
      unfolding rv using lo unfolding bot by (rule grid_mono)
    finally show ?thesis .
  qed
qed

lemma round_double_mono:
  assumes uv: "u \<le> v"
  shows "round_double u \<le> round_double v"
proof -
  consider "0 \<le> u" | "u < 0" "0 \<le> v" | "v < 0"
    by linarith
  then show ?thesis
  proof cases
    case 1
    then have "round_magnitude u \<le> round_magnitude v"
      using uv by (rule round_magnitude_mono)
    moreover have "round_magnitude 0 = 0"
      by (simp add: round_magnitude_def)
    ultimately show ?thesis
      using 1 uv round_magnitude_nonneg [of v]
      by (cases "u = 0"; cases "v = 0"; simp add: round_double_def sgn_if)
  next
    case 2
    have "0 \<le> round_magnitude \<bar>u\<bar>" "0 \<le> round_magnitude \<bar>v\<bar>"
      by (simp_all add: round_magnitude_nonneg)
    with 2 show ?thesis
      by (simp add: round_double_def sgn_if)
  next
    case 3
    then have "round_magnitude (- v) \<le> round_magnitude (- u)"
      using uv by (intro round_magnitude_mono) simp_all
    with 3 uv show ?thesis
      by (simp add: round_double_def sgn_if)
  qed
qed

lemma round_double_neg: "round_double (- v) = - round_double v"
  by (simp add: round_double_def sgn_minus)

text \<open>The integers below \<open>2 ^ 53\<close> in magnitude are doubles.\<close>

lemma round_magnitude_int:
  assumes "0 < n" "n < 2 ^ 53"
  shows "round_magnitude (of_int n) = of_int n"
proof -
  let ?v = "of_int n :: real"
  let ?k = "ulp_exp ?v"
  have v: "0 < ?v"
    using assms(1) by simp
  have below: "?v < 2 powi 53"
    using assms(2) by (simp add: of_int_less_numeral_power_cancel_iff)
  have k0: "?k \<le> 0"
  proof (rule ccontr)
    assume "\<not> ?k \<le> 0"
    then have k: "1 \<le> ?k"
      by simp
    then have "- 1074 < ?k"
      by simp
    with v have "2 powi (?k + 52) \<le> ?v"
      by (rule ulp_exp_bounds(2))
    moreover have "(2::real) powi 53 \<le> 2 powi (?k + 52)"
      using k by (intro power_int_increasing) simp_all
    ultimately show False
      using below by linarith
  qed
  have "(2::real) powi ?k * 2 powi (- ?k) = 1"
    using power_int_add [of "2::real" ?k "- ?k"] by simp
  moreover have "(2::real) powi (- ?k) = of_int (2 ^ nat (- ?k))"
    using k0 by (simp add: power_int_nonneg_exp)
  ultimately have "?v = of_int (n * 2 ^ nat (- ?k)) * 2 powi ?k"
    by (simp add: mult.assoc mult.commute)
  then obtain z where z: "?v = of_int z * 2 powi ?k" ..
  have "round_magnitude ?v = of_int (round_even (of_int z * 2 powi ?k / 2 powi ?k)) * 2 powi ?k"
    using v z by (simp add: round_magnitude_def)
  also have "\<dots> = of_int z * 2 powi ?k"
    by (rule grid_fix)
  finally show ?thesis
    using z by simp
qed

lemma is_double_int:
  assumes "\<bar>n\<bar> < 2 ^ 53"
  shows "is_double (of_int n)"
proof -
  have big: "(2::real) ^ 53 \<le> (2 ^ 53 - 1) * 2 ^ 971"
    by simp
  have "\<bar>of_int n :: real\<bar> < 2 ^ 53"
    using assms by (metis of_int_abs of_int_less_numeral_power_cancel_iff)
  with big have l: "\<bar>of_int n :: real\<bar> \<le> MAX_VALUE"
    by (simp add: MAX_VALUE_def)
  have "round_double (of_int n) = of_int n"
  proof (cases "n = 0")
    case True
    then show ?thesis
      by (simp add: round_double_def)
  next
    case False
    then have "0 < \<bar>n\<bar>"
      by simp
    from round_magnitude_int [OF this assms] have "round_magnitude \<bar>of_int n\<bar> = \<bar>of_int n\<bar>"
      by simp
    then show ?thesis
      by (simp add: round_double_def sgn_if abs_if split: if_splits)
  qed
  with l show ?thesis
    by (simp add: is_double_def)
qed

lemma is_double_small: "is_double 0" "is_double 1" "is_double 15" "is_double 50" "is_double 100"
  using is_double_int [of 0] is_double_int [of 1] is_double_int [of 15] is_double_int [of 50]
    is_double_int [of 100]
  by simp_all

lemma rounded_is_double: "is_double v \<Longrightarrow> rounded v = Some v"
  by (simp add: rounded_def is_double_def)

lemma rounded_Ints: "v \<in> \<int> \<Longrightarrow> \<bar>v\<bar> < 2 ^ 53 \<Longrightarrow> rounded v = Some v"
proof -
  assume "v \<in> \<int>" and b: "\<bar>v\<bar> < 2 ^ 53"
  then obtain n where n: "v = of_int n"
    by (auto elim: Ints_cases)
  with b have "\<bar>n\<bar> < 2 ^ 53"
    by (metis of_int_abs of_int_less_numeral_power_cancel_iff)
  then show ?thesis
    unfolding n by (intro rounded_is_double is_double_int)
qed

lemma is_double_neg: "is_double v \<Longrightarrow> is_double (- v)"
  by (simp add: is_double_def round_double_neg)

lemma is_double_abs: "is_double v \<Longrightarrow> is_double \<bar>v\<bar>"
  by (cases "0 \<le> v") (simp_all add: is_double_neg abs_if)

lemma round_double_between:
  assumes "is_double a" "is_double b" "a \<le> v" "v \<le> b"
  shows "a \<le> round_double v" "round_double v \<le> b"
proof -
  have "round_double a \<le> round_double v"
    using assms(3) by (rule round_double_mono)
  then show "a \<le> round_double v"
    using assms(1) by (simp add: is_double_def)
  have "round_double v \<le> round_double b"
    using assms(4) by (rule round_double_mono)
  then show "round_double v \<le> b"
    using assms(2) by (simp add: is_double_def)
qed

lemma rounded_within:
  assumes "is_double b" "\<bar>v\<bar> \<le> b"
  shows "rounded v = Some (round_double v)" "\<bar>round_double v\<bar> \<le> b"
proof -
  have nb: "is_double (- b)"
    using assms(1) by (rule is_double_neg)
  have "- b \<le> v" "v \<le> b"
    using assms(2) by simp_all
  from round_double_between [OF nb assms(1) this] show bound: "\<bar>round_double v\<bar> \<le> b"
    by simp
  have "\<bar>b\<bar> \<le> MAX_VALUE"
    using assms(1) by (simp add: is_double_def)
  with bound show "rounded v = Some (round_double v)"
    by (simp add: rounded_def)
qed

text \<open>The value of \<open>round_double\<close> at a positive real, away from a tie and at a tie.\<close>

lemma round_even_eq:
  assumes "of_int z - 1 / 2 < v" "v < of_int z + 1 / 2"
  shows "round_even v = z"
proof -
  have "\<lfloor>v\<rfloor> = z \<or> \<lfloor>v\<rfloor> = z - 1"
    using assms by linarith
  then show ?thesis
    using assms by (auto simp: round_even_def Let_def)
qed

lemma round_even_tie: "round_even (of_int z + 1 / 2) = (if even z then z else z + 1)"
proof -
  have "\<lfloor>of_int z + 1 / 2 :: real\<rfloor> = z"
    by linarith
  then show ?thesis
    by (simp add: round_even_def Let_def)
qed

lemma ulp_exp_eq:
  assumes "2 powi (k + 52) \<le> v" "v < 2 powi (k + 53)" "- 1074 \<le> k"
  shows "ulp_exp v = k" "0 < v"
proof -
  show v: "0 < v"
    using assms(1) two_powi_pos [of "k + 52"] by linarith
  have p: "2 powr real_of_int i = 2 powi i" for i
    by (rule powr_real_of_int') simp_all
  have "\<lfloor>log 2 v\<rfloor> = k + 52"
    using floor_log_eq_powr_iff [of v 2 "k + 52"] v assms(1,2) unfolding p
    by (simp add: add.commute add.left_commute)
  then show "ulp_exp v = k"
    using assms(3) by (simp add: ulp_exp_def)
qed

lemma round_double_eq:
  assumes "2 powi (k + 52) \<le> v" "v < 2 powi (k + 53)" "- 1074 \<le> k"
    and "(of_int z - 1 / 2) * 2 powi k < v" "v < (of_int z + 1 / 2) * 2 powi k"
  shows "round_double v = of_int z * 2 powi k"
proof -
  note k = ulp_exp_eq [OF assms(1-3)]
  have "of_int z - 1 / 2 < v / 2 powi k" "v / 2 powi k < of_int z + 1 / 2"
    using assms(4,5) two_powi_pos [of k] by (simp_all add: pos_less_divide_eq pos_divide_less_eq)
  then have "round_even (v / 2 powi k) = z"
    by (rule round_even_eq)
  then show ?thesis
    using k by (simp add: round_double_def round_magnitude_def)
qed

lemma round_double_tie:
  assumes "2 powi (k + 52) \<le> v" "v < 2 powi (k + 53)" "- 1074 \<le> k"
    and "v = (of_int z + 1 / 2) * 2 powi k"
  shows "round_double v = of_int (if even z then z else z + 1) * 2 powi k"
proof -
  note k = ulp_exp_eq [OF assms(1-3)]
  have "v / 2 powi k = of_int z + 1 / 2"
    using assms(4) two_powi_pos [of k] by simp
  then have "round_even (v / 2 powi k) = (if even z then z else z + 1)"
    by (simp only: round_even_tie)
  then show ?thesis
    using k by (simp add: round_double_def round_magnitude_def)
qed

subsection \<open>The position update\<close>

text \<open>
  One axis of the position update: \<open>c\<close> is the pointer coordinate, \<open>l\<close> the rectangle's
  left or top, \<open>e\<close> its width or height, \<open>m\<close> the factor of the rotation.
\<close>

lemma axis_rotation:
  assumes m: "is_double m"
    and ext: "0 < e" "is_double e" "is_double (e / 2)"
    and inside: "l \<le> c" "c \<le> l + e"
  shows "num_sub c l = Some (round_double (c - l))"
    and "num_div e 2 = Some (e / 2)"
    and "num_sub (round_double (c - l)) (e / 2) = Some (round_double (round_double (c - l) - e / 2))"
    and "num_div (round_double (round_double (c - l) - e / 2)) (e / 2) =
           Some (round_double (round_double (round_double (c - l) - e / 2) / (e / 2)))"
    and "num_mul (round_double (round_double (round_double (c - l) - e / 2) / (e / 2))) m =
           Some (round_double (round_double (round_double (round_double (c - l) - e / 2) / (e / 2)) * m))"
    and "\<exists>p. num_div (round_double (c - l)) e = Some p \<and> (\<exists>pc. num_mul p 100 = Some pc)"
    and "\<bar>round_double (round_double (round_double (round_double (c - l) - e / 2) / (e / 2)) * m)\<bar> \<le> \<bar>m\<bar>"
    and "c = l + e / 2 \<Longrightarrow>
           round_double (round_double (round_double (round_double (c - l) - e / 2) / (e / 2)) * m) = 0"
    and "c = l \<Longrightarrow>
           round_double (round_double (round_double (round_double (c - l) - e / 2) / (e / 2)) * m) = - m"
proof -
  let ?x = "round_double (c - l)" and ?h = "e / 2"
  let ?d = "round_double (?x - ?h)"
  let ?q = "round_double (?d / ?h)"
  note r0 = is_double_small(1) and r1 = is_double_small(2) and r100 = is_double_small(5)
  have rnd0: "round_double 0 = 0"
    using r0 by (simp add: is_double_def)
  have rnd1: "round_double 1 = 1"
    using r1 by (simp add: is_double_def)
  have hpos: "0 < ?h"
    using ext(1) by simp
  have "\<bar>c - l\<bar> \<le> e"
    using inside by simp
  from rounded_within [OF ext(2) this] show sx: "num_sub c l = Some ?x"
    by (simp add: num_sub_def)
  have "0 \<le> c - l" "c - l \<le> e"
    using inside by simp_all
  from round_double_between [OF r0 ext(2) this] have x0: "0 \<le> ?x" and xe: "?x \<le> e" .
  from rounded_is_double [OF ext(3)] show "num_div e 2 = Some ?h"
    by (simp add: num_div_def)
  have "\<bar>?x - ?h\<bar> \<le> ?h"
    using x0 xe unfolding abs_le_iff by (intro conjI; linarith)
  from rounded_within [OF ext(3) this] have rd: "rounded (?x - ?h) = Some ?d" and db: "\<bar>?d\<bar> \<le> ?h" .
  from rd show "num_sub ?x ?h = Some ?d"
    by (simp add: num_sub_def)
  have "\<bar>?d\<bar> / ?h \<le> 1"
    using db hpos by (simp add: divide_le_eq)
  then have "\<bar>?d / ?h\<bar> \<le> 1"
    using hpos by simp
  from rounded_within [OF r1 this] have rq: "rounded (?d / ?h) = Some ?q" and qb: "\<bar>?q\<bar> \<le> 1" .
  from rq hpos show "num_div ?d ?h = Some ?q"
    by (simp add: num_div_def)
  have "\<bar>?q * m\<bar> = \<bar>?q\<bar> * \<bar>m\<bar>"
    by (simp add: abs_mult)
  also have "\<dots> \<le> 1 * \<bar>m\<bar>"
    using qb by (intro mult_right_mono) simp_all
  finally have "\<bar>?q * m\<bar> \<le> \<bar>m\<bar>"
    by simp
  from rounded_within [OF is_double_abs [OF m] this]
  have rr: "rounded (?q * m) = Some (round_double (?q * m))"
    and rb: "\<bar>round_double (?q * m)\<bar> \<le> \<bar>m\<bar>" .
  from rr show "num_mul ?q m = Some (round_double (?q * m))"
    by (simp add: num_mul_def)
  from rb show "\<bar>round_double (?q * m)\<bar> \<le> \<bar>m\<bar>" .
  have "\<bar>?x / e\<bar> \<le> 1"
    using x0 xe ext(1) by (simp add: divide_le_eq)
  from rounded_within [OF r1 this]
  have rp: "rounded (?x / e) = Some (round_double (?x / e))" and pb: "\<bar>round_double (?x / e)\<bar> \<le> 1" .
  have "\<bar>round_double (?x / e) * 100\<bar> \<le> 100"
    using pb by (simp add: abs_mult)
  from rounded_within [OF r100 this] rp ext(1)
  show "\<exists>p. num_div ?x e = Some p \<and> (\<exists>pc. num_mul p 100 = Some pc)"
    by (simp add: num_div_def num_mul_def)
  have rh: "round_double ?h = ?h"
    using ext(3) unfolding is_double_def by (rule conjunct1)
  show "round_double (?q * m) = 0" if "c = l + e / 2"
  proof -
    have eq: "c - l = ?h"
      using that by simp
    have z: "?x - ?h = 0"
      unfolding eq rh by simp
    show ?thesis
      unfolding z by (simp add: rnd0)
  qed
  show "round_double (?q * m) = - m" if "c = l"
  proof -
    have eq: "c - l = 0"
      using that by simp
    have x: "?x - ?h = - ?h"
      unfolding eq rnd0 by simp
    have d: "?d / ?h = - 1"
      unfolding x round_double_neg rh using hpos by simp
    have q: "?q * m = - m"
      unfolding d round_double_neg rnd1 by simp
    show ?thesis
      unfolding q round_double_neg using m by (simp add: is_double_def)
  qed
qed

text \<open>
  Claim C7, as amended. Take a rectangle of positive width and height, these and their
  halves being doubles, and a pointer position whose offsets from the rectangle's left
  and top lie between 0 and its width and height. Then the position update stores, for
  each rotation, the value of (offset - half extent) / half extent * \<open>maxRotation\<close>
  with every operation rounded to a double (the X rotation comes from the vertical
  offset and has the factor negated); the magnitudes do not exceed that of
  \<open>maxRotation\<close>; at the centre both rotations are 0; at the top edge the X rotation is
  \<open>maxRotation\<close> and at the left edge the Y rotation is \<open>- maxRotation\<close>. Nothing
  clamps the rotations: the bound comes from the offsets being within the extent and
  from rounding being monotone.
\<close>

theorem updateFromPoint_rotation:
  assumes m: "is_double (maxRotation (opts (heap w r)))"
    and width: "0 < r_width b" "is_double (r_width b)" "is_double (r_width b / 2)"
    and height: "0 < r_height b" "is_double (r_height b)" "is_double (r_height b / 2)"
    and inside: "r_left b \<le> cx" "cx \<le> r_left b + r_width b"
      "r_top b \<le> cy" "cy \<le> r_top b + r_height b"
  shows "\<exists>w'. updateFromPoint r b cx cy w = Some w' \<and>
     rx (hstate (heap w' r)) =
       round_double (round_double (round_double (round_double (cy - r_top b) - r_height b / 2) /
                                   (r_height b / 2)) *
                     (- maxRotation (opts (heap w r)))) \<and>
     ry (hstate (heap w' r)) =
       round_double (round_double (round_double (round_double (cx - r_left b) - r_width b / 2) /
                                   (r_width b / 2)) *
                     maxRotation (opts (heap w r))) \<and>
     \<bar>rx (hstate (heap w' r))\<bar> \<le> \<bar>maxRotation (opts (heap w r))\<bar> \<and>
     \<bar>ry (hstate (heap w' r))\<bar> \<le> \<bar>maxRotation (opts (heap w r))\<bar> \<and>
     (cy = r_top b + r_height b / 2 \<longrightarrow> rx (hstate (heap w' r)) = 0) \<and>
     (cx = r_left b + r_width b / 2 \<longrightarrow> ry (hstate (heap w' r)) = 0) \<and>
     (cy = r_top b \<longrightarrow> rx (hstate (heap w' r)) = maxRotation (opts (heap w r))) \<and>
     (cx = r_left b \<longrightarrow> ry (hstate (heap w' r)) = - maxRotation (opts (heap w r)))"
proof -
  let ?m = "maxRotation (opts (heap w r))"
  let ?rx = "round_double (round_double (round_double (round_double (cy - r_top b) - r_height b / 2) /
      (r_height b / 2)) * (- ?m))"
  let ?ry = "round_double (round_double (round_double (round_double (cx - r_left b) - r_width b / 2) /
      (r_width b / 2)) * ?m)"
  note X = axis_rotation [OF m width inside(1,2)]
  note Y = axis_rotation [OF is_double_neg [OF m] height inside(3,4)]
  obtain px mxv where px: "num_div (round_double (cx - r_left b)) (r_width b) = Some px"
    and mxv: "num_mul px 100 = Some mxv"
    using X(6) by blast
  obtain py myv where py: "num_div (round_double (cy - r_top b)) (r_height b) = Some py"
    and myv: "num_mul py 100 = Some myv"
    using Y(6) by blast
  define w' where "w' = scheduleRender r (upd_obj r (\<lambda>obj. obj\<lparr> hstate := (hstate obj)\<lparr>
      rx := ?rx, ry := ?ry, mx := mxv, my := myv \<rparr> \<rparr>) w)"
  have res: "updateFromPoint r b cx cy w = Some w'"
    unfolding updateFromPoint_def w'_def
    by (simp only: X(1-5) Y(1-5) px mxv py myv Option.bind.simps)
  have rxv: "rx (hstate (heap w' r)) = ?rx" and ryv: "ry (hstate (heap w' r)) = ?ry"
    by (simp_all add: w'_def hstate_scheduleRender upd_obj_def)
  have c3: "\<bar>rx (hstate (heap w' r))\<bar> \<le> \<bar>?m\<bar>"
    unfolding rxv using Y(7) by simp
  have c4: "\<bar>ry (hstate (heap w' r))\<bar> \<le> \<bar>?m\<bar>"
    unfolding ryv by (rule X(7))
  have c5: "cy = r_top b + r_height b / 2 \<longrightarrow> rx (hstate (heap w' r)) = 0"
    unfolding rxv using Y(8) by blast
  have c6: "cx = r_left b + r_width b / 2 \<longrightarrow> ry (hstate (heap w' r)) = 0"
    unfolding ryv using X(8) by blast
  have c7: "cy = r_top b \<longrightarrow> rx (hstate (heap w' r)) = ?m"
    unfolding rxv using Y(9) by simp
  have c8: "cx = r_left b \<longrightarrow> ry (hstate (heap w' r)) = - ?m"
    unfolding ryv using X(9) by blast
  from res rxv ryv c3 c4 c5 c6 c7 c8 show ?thesis
    by blast
qed

lemma demo_max: "maxRotation (opts (heap demo_world 0)) = 15"
  by (simp add: demo_world_def HolographicEffect_new_def empty_page_def new_obj_def merge_opts_def
      no_opts_def orElse_def DEFAULTS_def holo_setup_def makeLayer_def bindEvents_def render_def
      upd_obj_def Let_def)

theorem updateFromPoint_rotation_witness:
  "is_double (maxRotation (opts (heap demo_world 0))) \<and>
   0 < r_width demo_bounds \<and> is_double (r_width demo_bounds) \<and> is_double (r_width demo_bounds / 2) \<and>
   0 < r_height demo_bounds \<and> is_double (r_height demo_bounds) \<and> is_double (r_height demo_bounds / 2) \<and>
   r_left demo_bounds \<le> 0 \<and> 0 \<le> r_left demo_bounds + r_width demo_bounds \<and>
   r_top demo_bounds \<le> 50 \<and> 50 \<le> r_top demo_bounds + r_height demo_bounds \<and>
   updateFromPoint 0 demo_bounds 0 50 demo_world \<noteq> None \<and>
   rx (hstate (heap (the (updateFromPoint 0 demo_bounds 0 50 demo_world)) 0)) = 0 \<and>
   ry (hstate (heap (the (updateFromPoint 0 demo_bounds 0 50 demo_world)) 0)) = - 15"
proof -
  have bnds: "r_left demo_bounds = 0" "r_top demo_bounds = 0" "r_width demo_bounds = 100"
    "r_height demo_bounds = 100"
    by (simp_all add: demo_bounds_def)
  from updateFromPoint_rotation [of demo_world 0 demo_bounds 0 50] is_double_small bnds demo_max
  show ?thesis
    by auto
qed

text \<open>
  The claim as stated fails for a position outside the rectangle, which a touch that
  started on the element and moved off it delivers: 100 px to the right of a 100 px wide
  element the Y rotation is 45 degrees with \<open>maxRotation\<close> 15. The operations on the
  way are 200 - 0, 100 / 2, 200 - 50, 150 / 50 and 3 * 15; their results are small
  integers, so none of them rounds.
\<close>

theorem rotation_unclamped_counterexample:
  "updateFromPoint 0 demo_bounds 200 0 demo_world \<noteq> None \<and>
   maxRotation (opts (heap demo_world 0)) = 15 \<and>
   ry (hstate (heap (the (updateFromPoint 0 demo_bounds 200 0 demo_world)) 0)) = 45 \<and>
   \<not> \<bar>ry (hstate (heap (the (updateFromPoint 0 demo_bounds 200 0 demo_world)) 0))\<bar>
       \<le> \<bar>maxRotation (opts (heap demo_world 0))\<bar>"
proof -
  have "updateFromPoint 0 demo_bounds 200 0 demo_world =
      Some (scheduleRender 0 (upd_obj 0 (\<lambda>obj. obj\<lparr> hstate := (hstate obj)\<lparr>
        rx := 15, ry := 45, mx := 200, my := 0 \<rparr> \<rparr>) demo_world))"
    by (simp add: updateFromPoint_def num_sub_def num_mul_def num_div_def rounded_Ints
        demo_bounds_def demo_max)
  then show ?thesis
    by (simp add: demo_max hstate_scheduleRender upd_obj_def)
qed

text \<open>
  The bound also fails, by one rounding, at \<^verbatim>\<open>rect.right\<close> when that rounded sum lies
  to the right of left + width: for the element of \<open>edge_bounds\<close> the sum 0.5 + 15.6
  is a tie and rounds up to 16.1; the offset 16.1 - 0.5 is then larger than the width,
  the quotient rounds to \<open>1 + 2 powi - 52\<close> and the Y rotation to
  15.000000000000004 (exactly 4222124650659841 / 2 ^ 48).
\<close>

lemma right_edge_operations:
  "round_double (1 / 2 + 8782019273372467 / 2 ^ 49) = 2265873562520781 / 2 ^ 47"
  "round_double (2265873562520781 / 2 ^ 47 - 1 / 2) = 2195504818343117 / 2 ^ 47"
  "round_double (8782019273372467 / 2 ^ 49 / 2) = 8782019273372467 / 2 ^ 50"
  "round_double (2195504818343117 / 2 ^ 47 - 8782019273372467 / 2 ^ 50) = 8782019273372469 / 2 ^ 50"
  "round_double ((8782019273372469 / 2 ^ 50) / (8782019273372467 / 2 ^ 50)) = 4503599627370497 / 2 ^ 52"
  "round_double (4503599627370497 / 2 ^ 52 * 15) = 4222124650659841 / 2 ^ 48"
proof -
  have "round_double (1 / 2 + 8782019273372467 / 2 ^ 49) = of_int 4531747125041562 * 2 powi (- 48)"
    using round_double_tie [of "- 48" "1 / 2 + 8782019273372467 / 2 ^ 49" 4531747125041561]
    by (simp add: power_int_minus field_simps)
  also have "\<dots> = 2265873562520781 / 2 ^ 47"
    by (simp add: power_int_minus)
  finally show "round_double (1 / 2 + 8782019273372467 / 2 ^ 49) = 2265873562520781 / 2 ^ 47" .
  show "round_double (2265873562520781 / 2 ^ 47 - 1 / 2) = 2195504818343117 / 2 ^ 47"
    using round_double_eq [of "- 49" "2265873562520781 / 2 ^ 47 - 1 / 2" 8782019273372468]
    by (simp add: power_int_minus field_simps)
  show "round_double (8782019273372467 / 2 ^ 49 / 2) = 8782019273372467 / 2 ^ 50"
    using round_double_eq [of "- 50" "8782019273372467 / 2 ^ 49 / 2" 8782019273372467]
    by (simp add: power_int_minus field_simps)
  show "round_double (2195504818343117 / 2 ^ 47 - 8782019273372467 / 2 ^ 50) = 8782019273372469 / 2 ^ 50"
    using round_double_eq [of "- 50" "2195504818343117 / 2 ^ 47 - 8782019273372467 / 2 ^ 50" 8782019273372469]
    by (simp add: power_int_minus field_simps)
  show "round_double ((8782019273372469 / 2 ^ 50) / (8782019273372467 / 2 ^ 50)) = 4503599627370497 / 2 ^ 52"
    using round_double_eq [of "- 52" "(8782019273372469 / 2 ^ 50) / (8782019273372467 / 2 ^ 50)" 4503599627370497]
    by (simp add: power_int_minus field_simps)
  show "round_double (4503599627370497 / 2 ^ 52 * 15) = 4222124650659841 / 2 ^ 48"
    using round_double_eq [of "- 49" "4503599627370497 / 2 ^ 52 * 15" 8444249301319682]
    by (simp add: power_int_minus field_simps)
qed

lemma rotation_exceeds_at_right_edge:
  "round_double (r_left edge_bounds + r_width edge_bounds) = right_edge_x \<and>
   (\<exists>w'. updateFromPoint 0 edge_bounds right_edge_x 50 demo_world = Some w' \<and>
      ry (hstate (heap w' 0)) = 4222124650659841 / 2 ^ 48 \<and>
      maxRotation (opts (heap demo_world 0)) < ry (hstate (heap w' 0)))"
proof -
  define X :: real where "X = 2195504818343117 / 2 ^ 47"
  define H :: real where "H = 8782019273372467 / 2 ^ 50"
  define D :: real where "D = 8782019273372469 / 2 ^ 50"
  define Q :: real where "Q = 4503599627370497 / 2 ^ 52"
  define R :: real where "R = 4222124650659841 / 2 ^ 48"
  note defs = X_def H_def D_def Q_def R_def edge_bounds_def right_edge_x_def
  note d200 = is_double_int [of 200, simplified]
  have fin: "\<bar>v\<bar> \<le> 200 \<Longrightarrow> rounded v = Some (round_double v)" for v
    by (rule rounded_within(1) [OF d200])
  have sum: "round_double (r_left edge_bounds + r_width edge_bounds) = right_edge_x"
    by (simp only: defs rect.select_convs right_edge_operations(1))
  have x0: "round_double (right_edge_x - r_left edge_bounds) = X"
    by (simp only: defs rect.select_convs right_edge_operations(2))
  have xb: "\<bar>right_edge_x - r_left edge_bounds\<bar> \<le> 200"
    by (simp add: defs)
  have x: "num_sub right_edge_x (r_left edge_bounds) = Some X"
    unfolding num_sub_def using fin [OF xb] unfolding x0 .
  have y: "num_sub 50 (r_top edge_bounds) = Some 50"
    by (simp add: num_sub_def edge_bounds_def rounded_Ints)
  have h0: "round_double (r_width edge_bounds / 2) = H"
    by (simp only: defs rect.select_convs right_edge_operations(3))
  have hb: "\<bar>r_width edge_bounds / 2\<bar> \<le> 200"
    by (simp add: defs)
  have hw: "num_div (r_width edge_bounds) 2 = Some H"
    using fin [OF hb] unfolding h0 by (simp add: num_div_def)
  have hh: "num_div (r_height edge_bounds) 2 = Some 50"
    by (simp add: num_div_def edge_bounds_def rounded_Ints)
  have dy: "num_sub 50 50 = Some 0" "num_div 0 50 = Some 0"
    "num_mul 0 (- maxRotation (opts (heap demo_world 0))) = Some 0"
    by (simp_all add: num_sub_def num_div_def num_mul_def rounded_Ints)
  have d0: "round_double (X - H) = D"
    by (simp only: defs right_edge_operations(4))
  have db: "\<bar>X - H\<bar> \<le> 200"
    by (simp add: defs)
  have dx: "num_sub X H = Some D"
    unfolding num_sub_def using fin [OF db] unfolding d0 .
  have q0: "round_double (D / H) = Q"
    by (simp only: defs right_edge_operations(5))
  have qb: "\<bar>D / H\<bar> \<le> 200"
    by (simp add: defs)
  have hn: "H \<noteq> 0"
    by (simp add: H_def)
  have qx: "num_div D H = Some Q"
    using fin [OF qb] hn unfolding q0 by (simp add: num_div_def)
  have r0: "round_double (Q * 15) = R"
    by (simp only: defs right_edge_operations(6))
  have rb: "\<bar>Q * 15\<bar> \<le> 200"
    by (simp add: defs)
  have ryv: "num_mul Q (maxRotation (opts (heap demo_world 0))) = Some R"
    unfolding num_mul_def demo_max using fin [OF rb] unfolding r0 .
  have "\<bar>X / r_width edge_bounds\<bar> \<le> 2"
    by (simp add: defs)
  from rounded_within [OF is_double_int [of 2, simplified] this]
  have px: "num_div X (r_width edge_bounds) = Some (round_double (X / r_width edge_bounds))"
    and pxb: "\<bar>round_double (X / r_width edge_bounds)\<bar> \<le> 2"
    by (simp_all add: num_div_def edge_bounds_def)
  have mxv: "num_mul (round_double (X / r_width edge_bounds)) 100 =
      Some (round_double (round_double (X / r_width edge_bounds) * 100))"
    unfolding num_mul_def using pxb by (intro fin) (simp add: abs_mult)
  have "\<bar>50 / r_height edge_bounds\<bar> \<le> 1"
    by (simp add: defs)
  from rounded_within [OF is_double_small(2) this]
  have py: "num_div 50 (r_height edge_bounds) = Some (round_double (50 / r_height edge_bounds))"
    and pyb: "\<bar>round_double (50 / r_height edge_bounds)\<bar> \<le> 1"
    by (simp_all add: num_div_def edge_bounds_def)
  have myv: "num_mul (round_double (50 / r_height edge_bounds)) 100 =
      Some (round_double (round_double (50 / r_height edge_bounds) * 100))"
    unfolding num_mul_def using pyb by (intro fin) (simp add: abs_mult)
  define w' where "w' = scheduleRender 0 (upd_obj 0 (\<lambda>obj. obj\<lparr> hstate := (hstate obj)\<lparr>
      rx := 0, ry := R,
      mx := round_double (round_double (X / r_width edge_bounds) * 100),
      my := round_double (round_double (50 / r_height edge_bounds) * 100) \<rparr> \<rparr>) demo_world)"
  have res: "updateFromPoint 0 edge_bounds right_edge_x 50 demo_world = Some w'"
    unfolding updateFromPoint_def w'_def
    by (simp only: x y hw hh dy dx qx ryv px mxv py myv Option.bind.simps)
  have r: "ry (hstate (heap w' 0)) = R"
    by (simp add: w'_def hstate_scheduleRender upd_obj_def)
  have "15 < R"
    by (simp add: R_def)
  with sum res r show ?thesis
    by (simp add: demo_max R_def)
qed

text \<open>
  Claim C9. The constructor throws exactly when its first argument is not an
  HTMLElement (\<open>null\<close> and \<open>undefined\<close> included); it then leaves the world as it
  was, nothing having been set up; otherwise it returns the new instance. Page code
  does not catch the exception: \<open>try_new\<close> passes it on.
\<close>

theorem constructor_throws_iff:
  "(fst (HolographicEffect_new v p w) = Inl HoloArgError \<longleftrightarrow> \<not> instanceof_HTMLElement v) \<and>
   (\<not> instanceof_HTMLElement v \<longrightarrow> snd (HolographicEffect_new v p w) = w) \<and>
   (instanceof_HTMLElement v \<longrightarrow> fst (HolographicEffect_new v p w) = Inr (nextRef w)) \<and>
   (\<not> instanceof_HTMLElement v \<longrightarrow> try_new v s = Inl HoloArgError)"
proof (cases "instanceof_HTMLElement v")
  case True
  then obtain e where v: "v = JSElement e"
    by (cases v) simp_all
  show ?thesis
    unfolding v by (simp add: HolographicEffect_new_def Let_def)
next
  case False
  then have thrown: "HolographicEffect_new v p w = (Inl HoloArgError, w)" for p and w :: "'a world_scheme"
    by (simp add: HolographicEffect_new_def)
  have "try_new v s = Inl HoloArgError"
    using False by (simp add: try_new_def HolographicEffect_new_def)
  with False thrown show ?thesis
    by simp
qed

theorem constructor_throws_iff_witness:
  "\<not> instanceof_HTMLElement JSNull \<and>
   fst (HolographicEffect_new JSNull no_opts (empty_page False)) = Inl HoloArgError \<and>
   snd (HolographicEffect_new JSNull no_opts (empty_page False)) = empty_page False \<and>
   instanceof_HTMLElement (JSElement LightboxCardEl) \<and>
   fst (HolographicEffect_new (JSElement LightboxCardEl) no_opts (empty_page False)) = Inr 0"
  using constructor_throws_iff [of JSNull no_opts "empty_page False" "empty_page False"]
    constructor_throws_iff [of "JSElement LightboxCardEl" no_opts "empty_page False" "empty_page False"]
  by (simp add: empty_page_def)

section \<open>What the engine leaves alone\<close>

lemma makeLayer_page:
  fixes w :: page
  shows
  "cards (makeLayer r k w) = cards w"
  "playedCards (makeLayer r k w) = playedCards w"
  "isFan (makeLayer r k w) = isFan w"
  "lightboxEffect (makeLayer r k w) = lightboxEffect w"
  "pointerState (makeLayer r k w) = pointerState w"
  "holoEffect (makeLayer r k w) = holoEffect w"
  "prop_i (makeLayer r k w) = prop_i w"
  "prop_n (makeLayer r k w) = prop_n w"
  "handChildren (makeLayer r k w) = handChildren w"
  "playChildren (makeLayer r k w) = playChildren w"
  "bodyChildren (makeLayer r k w) = bodyChildren w"
  "lightboxActive (makeLayer r k w) = lightboxActive w"
  "handFlat (makeLayer r k w) = handFlat w"
  "dropHover (makeLayer r k w) = dropHover w"
  "fieldFull (makeLayer r k w) = fieldFull w"
  "nextCard (makeLayer r k w) = nextCard w"
  "nextPlaceholder (makeLayer r k w) = nextPlaceholder w"
  "now (makeLayer r k w) = now w"
  "timers (makeLayer r k w) = timers w"
  "nextTimer (makeLayer r k w) = nextTimer w"
  by (simp_all add: makeLayer_def upd_obj_def Let_def)

lemma holo_setup_page:
  fixes w :: page
  shows
  "cards (holo_setup r w) = cards w"
  "playedCards (holo_setup r w) = playedCards w"
  "isFan (holo_setup r w) = isFan w"
  "lightboxEffect (holo_setup r w) = lightboxEffect w"
  "pointerState (holo_setup r w) = pointerState w"
  "holoEffect (holo_setup r w) = holoEffect w"
  "prop_i (holo_setup r w) = prop_i w"
  "prop_n (holo_setup r w) = prop_n w"
  "handChildren (holo_setup r w) = handChildren w"
  "playChildren (holo_setup r w) = playChildren w"
  "bodyChildren (holo_setup r w) = bodyChildren w"
  "lightboxActive (holo_setup r w) = lightboxActive w"
  "handFlat (holo_setup r w) = handFlat w"
  "dropHover (holo_setup r w) = dropHover w"
  "fieldFull (holo_setup r w) = fieldFull w"
  "nextCard (holo_setup r w) = nextCard w"
  "nextPlaceholder (holo_setup r w) = nextPlaceholder w"
  "now (holo_setup r w) = now w"
  "timers (holo_setup r w) = timers w"
  "nextTimer (holo_setup r w) = nextTimer w"
  by (simp_all add: holo_setup_def makeLayer_page Let_def)

lemma bindEvents_page:
  fixes w :: page
  shows
  "cards (bindEvents r w) = cards w"
  "playedCards (bindEvents r w) = playedCards w"
  "isFan (bindEvents r w) = isFan w"
  "lightboxEffect (bindEvents r w) = lightboxEffect w"
  "pointerState (bindEvents r w) = pointerState w"
  "holoEffect (bindEvents r w) = holoEffect w"
  "prop_i (bindEvents r w) = prop_i w"
  "prop_n (bindEvents r w) = prop_n w"
  "handChildren (bindEvents r w) = handChildren w"
  "playChildren (bindEvents r w) = playChildren w"
  "bodyChildren (bindEvents r w) = bodyChildren w"
  "lightboxActive (bindEvents r w) = lightboxActive w"
  "handFlat (bindEvents r w) = handFlat w"
  "dropHover (bindEvents r w) = dropHover w"
  "fieldFull (bindEvents r w) = fieldFull w"
  "nextCard (bindEvents r w) = nextCard w"
  "nextPlaceholder (bindEvents r w) = nextPlaceholder w"
  "now (bindEvents r w) = now w"
  "timers (bindEvents r w) = timers w"
  "nextTimer (bindEvents r w) = nextTimer w"
  by (simp_all add: bindEvents_def Let_def)

lemma render_page:
  fixes w :: page
  shows
  "cards (render r w) = cards w"
  "playedCards (render r w) = playedCards w"
  "isFan (render r w) = isFan w"
  "lightboxEffect (render r w) = lightboxEffect w"
  "pointerState (render r w) = pointerState w"
  "holoEffect (render r w) = holoEffect w"
  "prop_i (render r w) = prop_i w"
  "prop_n (render r w) = prop_n w"
  "handChildren (render r w) = handChildren w"
  "playChildren (render r w) = playChildren w"
  "bodyChildren (render r w) = bodyChildren w"
  "lightboxActive (render r w) = lightboxActive w"
  "handFlat (render r w) = handFlat w"
  "dropHover (render r w) = dropHover w"
  "fieldFull (render r w) = fieldFull w"
  "nextCard (render r w) = nextCard w"
  "nextPlaceholder (render r w) = nextPlaceholder w"
  "now (render r w) = now w"
  "timers (render r w) = timers w"
  "nextTimer (render r w) = nextTimer w"
  by (simp_all add: render_def Let_def)

lemma attached_page [simp]:
  "cards (attached e s) = cards s"
  "playedCards (attached e s) = playedCards s"
  "isFan (attached e s) = isFan s"
  "lightboxEffect (attached e s) = lightboxEffect s"
  "pointerState (attached e s) = pointerState s"
  "holoEffect (attached e s) = holoEffect s"
  "prop_i (attached e s) = prop_i s"
  "prop_n (attached e s) = prop_n s"
  "handChildren (attached e s) = handChildren s"
  "playChildren (attached e s) = playChildren s"
  "bodyChildren (attached e s) = bodyChildren s"
  "lightboxActive (attached e s) = lightboxActive s"
  "handFlat (attached e s) = handFlat s"
  "dropHover (attached e s) = dropHover s"
  "fieldFull (attached e s) = fieldFull s"
  "nextCard (attached e s) = nextCard s"
  "nextPlaceholder (attached e s) = nextPlaceholder s"
  "now (attached e s) = now s"
  "timers (attached e s) = timers s"
  "nextTimer (attached e s) = nextTimer s"
  by (simp_all add: attached_def HolographicEffect_new_def Let_def
      holo_setup_page bindEvents_page render_page)

lemma destroy_page [simp]:
  fixes s :: page
  shows
  "cards (destroy r s) = cards s"
  "playedCards (destroy r s) = playedCards s"
  "isFan (destroy r s) = isFan s"
  "lightboxEffect (destroy r s) = lightboxEffect s"
  "pointerState (destroy r s) = pointerState s"
  "holoEffect (destroy r s) = holoEffect s"
  "prop_i (destroy r s) = prop_i s"
  "prop_n (destroy r s) = prop_n s"
  "handChildren (destroy r s) = handChildren s"
  "playChildren (destroy r s) = playChildren s"
  "bodyChildren (destroy r s) = bodyChildren s"
  "lightboxActive (destroy r s) = lightboxActive s"
  "handFlat (destroy r s) = handFlat s"
  "dropHover (destroy r s) = dropHover s"
  "fieldFull (destroy r s) = fieldFull s"
  "nextCard (destroy r s) = nextCard s"
  "nextPlaceholder (destroy r s) = nextPlaceholder s"
  "now (destroy r s) = now s"
  "timers (destroy r s) = timers s"
  "nextTimer (destroy r s) = nextTimer s"
  by (simp_all add: destroy_def upd_obj_def Let_def)

lemma try_new_elem [simp]: "try_new (JSElement e) s = Inr (nextRef s, attached e s)"
  by (simp add: try_new_def attached_def HolographicEffect_new_def Let_def)

section \<open>DOM operations and the reset loop\<close>

lemma holo_setup_world:
  "nextRef (holo_setup r w) = nextRef w"
  "listeners (holo_setup r w) = listeners w"
  "el (heap (holo_setup r w) q) = el (heap w q)"
  by (simp_all add: holo_setup_def makeLayer_def upd_obj_def Let_def)

lemma render_world:
  "nextRef (render r w) = nextRef w"
  "listeners (render r w) = listeners w"
  "heap (render r w) = heap w"
  by (simp_all add: render_def Let_def)

lemma attached_world [simp]:
  "nextRef (attached e s) = Suc (nextRef s)"
  "listeners (attached e s) = (listeners s)(e := listeners s e @ [nextRef s])"
  "el (heap (attached e s) q) = (if q = nextRef s then e else el (heap s q))"
  by (simp_all add: attached_def HolographicEffect_new_def Let_def render_world
      holo_setup_world bindEvents_def new_obj_def)

lemma destroy_world [simp]:
  "nextRef (destroy r w) = nextRef w"
  "listeners (destroy r w) =
     (listeners w)(el (heap w r) := removeAll r (listeners w (el (heap w r))))"
  "el (heap (destroy r w) q) = el (heap w q)"
  by (simp_all add: destroy_def upd_obj_def Let_def)

lemma detach_fields [simp]:
  "cards (detach e s) = cards s"
  "playedCards (detach e s) = playedCards s"
  "isFan (detach e s) = isFan s"
  "lightboxEffect (detach e s) = lightboxEffect s"
  "pointerState (detach e s) = pointerState s"
  "holoEffect (detach e s) = holoEffect s"
  "prop_i (detach e s) = prop_i s"
  "prop_n (detach e s) = prop_n s"
  "lightboxActive (detach e s) = lightboxActive s"
  "handFlat (detach e s) = handFlat s"
  "dropHover (detach e s) = dropHover s"
  "fieldFull (detach e s) = fieldFull s"
  "nextCard (detach e s) = nextCard s"
  "nextPlaceholder (detach e s) = nextPlaceholder s"
  "now (detach e s) = now s"
  "timers (detach e s) = timers s"
  "nextTimer (detach e s) = nextTimer s"
  "prefersReducedMotion (detach e s) = prefersReducedMotion s"
  "heap (detach e s) = heap s"
  "nextRef (detach e s) = nextRef s"
  "listeners (detach e s) = listeners s"
  "overlays (detach e s) = overlays s"
  "transform (detach e s) = transform s"
  "transition (detach e s) = transition s"
  "frames (detach e s) = frames s"
  "nextFrame (detach e s) = nextFrame s"
  "handChildren (detach e s) = removeAll e (handChildren s)"
  "playChildren (detach e s) = removeAll e (playChildren s)"
  "bodyChildren (detach e s) = removeAll e (bodyChildren s)"
  by (simp_all add: detach_def)

lemma appendChild_fields [simp]:
  "cards (appendChild p e s) = cards s"
  "playedCards (appendChild p e s) = playedCards s"
  "isFan (appendChild p e s) = isFan s"
  "lightboxEffect (appendChild p e s) = lightboxEffect s"
  "pointerState (appendChild p e s) = pointerState s"
  "holoEffect (appendChild p e s) = holoEffect s"
  "prop_i (appendChild p e s) = prop_i s"
  "prop_n (appendChild p e s) = prop_n s"
  "lightboxActive (appendChild p e s) = lightboxActive s"
  "handFlat (appendChild p e s) = handFlat s"
  "dropHover (appendChild p e s) = dropHover s"
  "fieldFull (appendChild p e s) = fieldFull s"
  "nextCard (appendChild p e s) = nextCard s"
  "nextPlaceholder (appendChild p e s) = nextPlaceholder s"
  "now (appendChild p e s) = now s"
  "timers (appendChild p e s) = timers s"
  "nextTimer (appendChild p e s) = nextTimer s"
  "prefersReducedMotion (appendChild p e s) = prefersReducedMotion s"
  "heap (appendChild p e s) = heap s"
  "nextRef (appendChild p e s) = nextRef s"
  "listeners (appendChild p e s) = listeners s"
  "overlays (appendChild p e s) = overlays s"
  "transform (appendChild p e s) = transform s"
  "transition (appendChild p e s) = transition s"
  "frames (appendChild p e s) = frames s"
  "nextFrame (appendChild p e s) = nextFrame s"
  by (cases p; simp add: appendChild_def Let_def)+

lemma appendChild_children [simp]:
  "handChildren (appendChild p e s) =
     (if p = HandC then removeAll e (handChildren s) @ [e] else removeAll e (handChildren s))"
  "playChildren (appendChild p e s) =
     (if p = PlayC then removeAll e (playChildren s) @ [e] else removeAll e (playChildren s))"
  "bodyChildren (appendChild p e s) =
     (if p = BodyC then removeAll e (bodyChildren s) @ [e] else removeAll e (bodyChildren s))"
  by (cases p; simp add: appendChild_def Let_def)+

lemma reset_step_fields:
  "playedCards (reset_step s) = butlast (playedCards s)"
  "cards (reset_step s) = cards s @ [last (playedCards s)]"
  "holoEffect (reset_step s) = (holoEffect s)(last (playedCards s) := nextRef s)"
  "nextRef (reset_step s) = Suc (nextRef s)"
  "pointerState (reset_step s) = pointerState s"
  "prop_i (reset_step s) = prop_i s" "prop_n (reset_step s) = prop_n s"
  "handChildren (reset_step s) =
     removeAll (SlotEl (last (playedCards s))) (handChildren s) @ [SlotEl (last (playedCards s))]"
  "playChildren (reset_step s) = removeAll (SlotEl (last (playedCards s))) (playChildren s)"
  "bodyChildren (reset_step s) = removeAll (SlotEl (last (playedCards s))) (bodyChildren s)"
  by (simp_all add: reset_step_def Let_def)

lemma reset_step_listeners:
  "listeners (reset_step s) =
     (let c = last (playedCards s); old = holoEffect s c; e0 = el (heap s old);
          l1 = (listeners s)(e0 := removeAll old (listeners s e0))
      in l1(InnerEl c := l1 (InnerEl c) @ [nextRef s]))"
  by (simp add: reset_step_def Let_def)

lemma reset_step_el:
  "el (heap (reset_step s) q) = (if q = nextRef s then InnerEl (last (playedCards s)) else el (heap s q))"
  by (simp add: reset_step_def Let_def)

lemma reset_loop_unfold:
  "reset_loop s = (if playedCards s = [] then Inr s else reset_loop (reset_step s))"
  by (subst reset_loop.simps) (simp add: reset_step_def Let_def)

lemma reset_induct [case_names step]:
  assumes "\<And>s. (playedCards s \<noteq> [] \<Longrightarrow> P (reset_step s)) \<Longrightarrow> P s"
  shows "P s"
proof (induction "length (playedCards s)" arbitrary: s)
  case 0
  show ?case by (rule assms) (use 0 in simp)
next
  case (Suc n)
  show ?case
  proof (rule assms)
    assume "playedCards s \<noteq> []"
    with Suc.hyps(2) have "n = length (playedCards (reset_step s))"
      by (simp add: reset_step_fields)
    then show "P (reset_step s)" by (rule Suc.hyps(1))
  qed
qed

lemma reset_loop_cards:
  "\<exists>s'. reset_loop s = Inr s' \<and> playedCards s' = [] \<and>
        cards s' = cards s @ rev (playedCards s) \<and>
        pointerState s' = pointerState s \<and> prop_i s' = prop_i s \<and> prop_n s' = prop_n s"
proof (induction s rule: reset_induct)
  case (step s)
  show ?case
  proof (cases "playedCards s = []")
    case True
    then show ?thesis by (simp add: reset_loop_unfold)
  next
    case False
    from step [OF False] obtain s' where s': "reset_loop (reset_step s) = Inr s'"
      "playedCards s' = []" "cards s' = cards (reset_step s) @ rev (playedCards (reset_step s))"
      "pointerState s' = pointerState (reset_step s)" "prop_i s' = prop_i (reset_step s)"
      "prop_n s' = prop_n (reset_step s)"
      by blast
    have rv: "rev (playedCards s) = last (playedCards s) # rev (butlast (playedCards s))"
      using False by (cases "playedCards s" rule: rev_cases) simp_all
    from s' False show ?thesis
      by (simp add: reset_loop_unfold [of s] reset_step_fields rv)
  qed
qed


lemma reset_loop_effects:
  assumes "\<forall>c \<in> set (playedCards s). holoEffect s c < nextRef s"
  shows "\<exists>s'. reset_loop s = Inr s' \<and> nextRef s \<le> nextRef s' \<and>
     (\<forall>c. c \<notin> set (playedCards s) \<longrightarrow> holoEffect s' c = holoEffect s c) \<and>
     (\<forall>c \<in> set (playedCards s).
        nextRef s \<le> holoEffect s' c \<and> holoEffect s' c < nextRef s' \<and>
        holoEffect s' c \<in> set (listeners s' (InnerEl c)) \<and>
        el (heap s' (holoEffect s' c)) = InnerEl c \<and>
        holoEffect s c \<notin> set (listeners s' (el (heap s (holoEffect s c))))) \<and>
     (\<forall>r. r < nextRef s \<longrightarrow> el (heap s' r) = el (heap s r)) \<and>
     (\<forall>r e. r < nextRef s \<longrightarrow> r \<in> set (listeners s' e) \<longrightarrow> r \<in> set (listeners s e)) \<and>
     (\<forall>r e. r < nextRef s \<longrightarrow> r \<in> set (listeners s e) \<longrightarrow>
        r \<notin> holoEffect s ` set (playedCards s) \<longrightarrow> r \<in> set (listeners s' e))"
  using assms
proof (induction s rule: reset_induct)
  case (step s)
  show ?case
  proof (cases "playedCards s = []")
    case True
    then show ?thesis by (simp add: reset_loop_unfold)
  next
    case False
    let ?t = "reset_step s"
    let ?c0 = "last (playedCards s)"
    let ?old0 = "holoEffect s ?c0"
    let ?r0 = "nextRef s"
    have c0_in: "?c0 \<in> set (playedCards s)"
      using False by simp
    have old0: "?old0 < ?r0"
      using step.prems c0_in by blast
    have t_played: "playedCards ?t = butlast (playedCards s)"
      and t_holo: "holoEffect ?t = (holoEffect s)(?c0 := ?r0)"
      and t_next: "nextRef ?t = Suc ?r0"
      by (simp_all add: reset_step_fields)
    have t_el: "el (heap ?t q) = (if q = ?r0 then InnerEl ?c0 else el (heap s q))" for q
      by (rule reset_step_el)
    have t_lis: "set (listeners ?t e) =
        (if e = InnerEl ?c0 then insert ?r0 else id)
          ((if e = el (heap s ?old0) then (\<lambda>A. A - {?old0}) else id) (set (listeners s e)))" for e
      by (auto simp: reset_step_listeners Let_def)
    have split_played: "set (playedCards s) = insert ?c0 (set (butlast (playedCards s)))"
      using False by (cases "playedCards s" rule: rev_cases) auto
    have alloc_t: "\<forall>c \<in> set (playedCards ?t). holoEffect ?t c < nextRef ?t"
      using step.prems by (auto simp: t_played t_holo t_next dest: in_set_butlastD less_SucI)
    from step.IH [OF False alloc_t] obtain s' where
      run: "reset_loop ?t = Inr s'" and
      mono: "nextRef ?t \<le> nextRef s'" and
      same: "\<And>c. c \<notin> set (playedCards ?t) \<Longrightarrow> holoEffect s' c = holoEffect ?t c" and
      fresh: "\<And>c. c \<in> set (playedCards ?t) \<Longrightarrow>
        nextRef ?t \<le> holoEffect s' c \<and> holoEffect s' c < nextRef s' \<and>
        holoEffect s' c \<in> set (listeners s' (InnerEl c)) \<and>
        el (heap s' (holoEffect s' c)) = InnerEl c \<and>
        holoEffect ?t c \<notin> set (listeners s' (el (heap ?t (holoEffect ?t c))))" and
      els: "\<And>r. r < nextRef ?t \<Longrightarrow> el (heap s' r) = el (heap ?t r)" and
      only_new: "\<And>r e. r < nextRef ?t \<Longrightarrow> r \<in> set (listeners s' e) \<Longrightarrow> r \<in> set (listeners ?t e)" and
      kept: "\<And>r e. r < nextRef ?t \<Longrightarrow> r \<in> set (listeners ?t e) \<Longrightarrow>
        r \<notin> holoEffect ?t ` set (playedCards ?t) \<Longrightarrow> r \<in> set (listeners s' e)"
      by blast
    have g_run: "reset_loop s = Inr s'"
      using run False by (simp add: reset_loop_unfold [of s])
    have g_mono: "?r0 \<le> nextRef s'"
      using mono by (simp add: t_next)
    have g_same: "holoEffect s' c = holoEffect s c" if "c \<notin> set (playedCards s)" for c
    proof -
      from that have "c \<notin> set (playedCards ?t)" "c \<noteq> ?c0"
        by (auto simp: t_played split_played)
      then show ?thesis using same [of c] by (simp add: t_holo)
    qed
    have g_els: "el (heap s' r) = el (heap s r)" if "r < ?r0" for r
      using els [of r] that by (simp add: t_next t_el)
    have g_only: "r \<in> set (listeners s e)" if "r < ?r0" "r \<in> set (listeners s' e)" for r e
    proof -
      have "r \<in> set (listeners ?t e)"
        using only_new [of r e] that by (simp add: t_next)
      then show ?thesis using that(1) by (auto simp: t_lis split: if_splits)
    qed
    have g_kept: "r \<in> set (listeners s' e)"
      if "r < ?r0" "r \<in> set (listeners s e)" "r \<notin> holoEffect s ` set (playedCards s)" for r e
    proof -
      have ne: "r \<noteq> ?old0" using that(3) c0_in by blast
      have "r \<in> set (listeners ?t e)"
        using that(2) ne by (auto simp: t_lis)
      moreover have "r \<notin> holoEffect ?t ` set (playedCards ?t)"
        using that(1,3) by (auto simp: t_played t_holo split_played split: if_splits)
      ultimately show ?thesis using kept [of r e] that(1) by (simp add: t_next)
    qed
    have g_fresh: "?r0 \<le> holoEffect s' c \<and> holoEffect s' c < nextRef s' \<and>
        holoEffect s' c \<in> set (listeners s' (InnerEl c)) \<and>
        el (heap s' (holoEffect s' c)) = InnerEl c \<and>
        holoEffect s c \<notin> set (listeners s' (el (heap s (holoEffect s c))))"
      if cin: "c \<in> set (playedCards s)" for c
    proof -
      have oldc: "holoEffect s c < ?r0" using step.prems cin by blast
      have gone: "holoEffect s c \<notin> set (listeners s' (el (heap s (holoEffect s c))))"
      proof (cases "c = ?c0")
        case True
        have "?old0 \<notin> set (listeners ?t (el (heap s ?old0)))"
          using old0 by (auto simp: t_lis)
        then have "?old0 \<notin> set (listeners s' (el (heap s ?old0)))"
          using only_new [of ?old0 "el (heap s ?old0)"] old0 by (auto simp: t_next)
        then show ?thesis using True by simp
      next
        case False
        then have cb: "c \<in> set (playedCards ?t)"
          using cin by (auto simp: t_played split_played)
        have "holoEffect ?t c = holoEffect s c"
          using False by (simp add: t_holo)
        moreover have "el (heap ?t (holoEffect s c)) = el (heap s (holoEffect s c))"
          using oldc by (simp add: t_el)
        ultimately show ?thesis using fresh [OF cb] by simp
      qed
      show ?thesis
      proof (cases "c \<in> set (playedCards ?t)")
        case True
        from fresh [OF True] gone show ?thesis by (simp add: t_next)
      next
        case False
        then have c0: "c = ?c0" using cin by (auto simp: t_played split_played)
        have h: "holoEffect s' c = ?r0"
          using same [OF False] c0 by (simp add: t_holo)
        have notold: "?r0 \<notin> holoEffect ?t ` set (playedCards ?t)"
        proof
          assume "?r0 \<in> holoEffect ?t ` set (playedCards ?t)"
          then obtain d where d: "d \<in> set (playedCards ?t)" "holoEffect ?t d = ?r0"
            by auto
          from d(1) False c0 have "d \<noteq> ?c0" by auto
          with d(2) have "holoEffect s d = ?r0" by (simp add: t_holo)
          moreover have "holoEffect s d < ?r0"
            using step.prems d(1) by (auto simp: t_played dest: in_set_butlastD)
          ultimately show False by simp
        qed
        have "?r0 \<in> set (listeners ?t (InnerEl ?c0))"
          by (simp add: t_lis)
        then have "?r0 \<in> set (listeners s' (InnerEl ?c0))"
          using kept [of ?r0 "InnerEl ?c0"] notold by (simp add: t_next)
        moreover have "el (heap s' ?r0) = InnerEl ?c0"
          using els [of ?r0] by (simp add: t_next t_el)
        moreover have "?r0 < nextRef s'"
          using mono by (simp add: t_next)
        ultimately show ?thesis using h c0 gone by simp
      qed
    qed
    from g_run g_mono g_same g_fresh g_els g_only g_kept show ?thesis
      by blast
  qed
qed

section \<open>Arrays, children lists and reindexing\<close>

subsection \<open>Arrays\<close>

lemma indexOf_notin: "x \<notin> set xs \<Longrightarrow> indexOf xs x = - 1"
  by (induction xs) (auto simp: Let_def)

lemma indexOf_in: "x \<in> set xs \<Longrightarrow> 0 \<le> indexOf xs x \<and> indexOf xs x < int (length xs)"
  by (induction xs) (auto simp: Let_def)

lemma indexOf_nonneg_iff: "0 \<le> indexOf xs x \<longleftrightarrow> x \<in> set xs"
  using indexOf_in [of x xs] indexOf_notin [of x xs] by fastforce

lemma indexOf_append_Cons: "x \<notin> set pre \<Longrightarrow> indexOf (pre @ x # post) x = int (length pre)"
  by (induction pre) (auto simp: Let_def)

lemma indexOf_nth: "distinct xs \<Longrightarrow> i < length xs \<Longrightarrow> indexOf xs (xs ! i) = int i"
proof -
  assume d: "distinct xs" and i: "i < length xs"
  have xs: "xs = take i xs @ xs ! i # drop (Suc i) xs"
    using i by (simp add: id_take_nth_drop)
  have "xs ! i \<notin> set (take i xs)"
    using d i xs by (metis distinct_append not_distinct_conv_prefix append_eq_conv_conj distinct.simps(2) disjoint_iff list.set_intros(1))
  then have "indexOf (take i xs @ xs ! i # drop (Suc i) xs) (xs ! i) = int (length (take i xs))"
    by (rule indexOf_append_Cons)
  with xs i show ?thesis by simp
qed

lemma indexOf_map_inj: "inj f \<Longrightarrow> indexOf (map f xs) (f x) = indexOf xs x"
  by (induction xs) (auto simp: Let_def dest: injD)

lemma splice1_indexOf: "x \<in> set xs \<Longrightarrow> splice1 (indexOf xs x) xs = remove1 x xs"
proof -
  assume "x \<in> set xs"
  then obtain pre post where xs: "xs = pre @ x # post" and pre: "x \<notin> set pre"
    by (meson split_list_first)
  have "indexOf xs x = int (length pre)"
    unfolding xs using pre by (rule indexOf_append_Cons)
  then have "splice1 (indexOf xs x) xs = pre @ post"
    by (simp add: splice1_def xs Let_def)
  moreover have "remove1 x xs = pre @ post"
    using pre by (simp add: xs remove1_append)
  ultimately show ?thesis by simp
qed

lemma map_indexOf_self: "distinct ys \<Longrightarrow> map (indexOf ys) ys = map int [0 ..< length ys]"
  by (rule nth_equalityI) (simp_all add: indexOf_nth)

lemma inj_on_indexOf: "inj_on (indexOf ys) (set ys)"
proof (rule inj_onI)
  fix a b assume a: "a \<in> set ys" and b: "b \<in> set ys" and eq: "indexOf ys a = indexOf ys b"
  from a obtain pre post where ys: "ys = pre @ a # post" and pre: "a \<notin> set pre"
    by (meson split_list_first)
  have ia: "indexOf ys a = int (length pre)"
    unfolding ys using pre by (rule indexOf_append_Cons)
  show "a = b"
  proof (rule ccontr)
    assume ne: "a \<noteq> b"
    show False
    proof (cases "b \<in> set pre")
      case True
      then obtain p1 p2 where p: "pre = p1 @ b # p2" and "b \<notin> set p1"
        by (meson split_list_first)
      then have "indexOf ys b = int (length p1)"
        using indexOf_append_Cons [of b p1 "p2 @ a # post"] by (simp add: ys)
      with ia eq p show False by simp
    next
      case False
      with b ne have "b \<in> set post" by (auto simp: ys)
      then obtain q1 q2 where q: "post = q1 @ b # q2" and q1: "b \<notin> set q1"
        by (meson split_list_first)
      have "b \<notin> set (pre @ a # q1)" using False ne q1 by auto
      then have "indexOf ((pre @ a # q1) @ b # q2) b = int (length (pre @ a # q1))"
        by (rule indexOf_append_Cons)
      with ia eq show False by (simp add: ys q)
    qed
  qed
qed

lemma sort_key_indexOf:
  assumes "distinct ys" "distinct xs" "set xs = set ys"
  shows "sort_key (indexOf ys) xs = ys"
proof -
  let ?f = "indexOf ys" and ?zs = "sort_key (indexOf ys) xs"
  have inj: "inj_on ?f (set ?zs \<union> set ys)"
    using inj_on_indexOf [of ys] assms(3) by simp
  have "sorted (map ?f ?zs)" by simp
  moreover have "distinct (map ?f ?zs)"
    using assms(2) inj by (simp add: distinct_map inj_on_Un)
  moreover have "sorted (map ?f ys)"
    using assms(1) by (simp add: map_indexOf_self sorted_map sorted_wrt_map)
  moreover have "distinct (map ?f ys)"
    using assms(1) inj by (simp add: distinct_map inj_on_Un)
  moreover have "set (map ?f ?zs) = set (map ?f ys)"
    using assms(3) by simp
  ultimately have "map ?f ?zs = map ?f ys"
    by (rule sorted_distinct_set_unique)
  with inj show ?thesis
    by (rule inj_on_map_eq_map [THEN iffD1])
qed

lemma next_after_split:
  "x \<notin> set pre \<Longrightarrow> next_after x (pre @ x # post) = (case post of [] \<Rightarrow> None | y # ys \<Rightarrow> Some y)"
proof (induction pre)
  case Nil
  then show ?case by (cases post) simp_all
next
  case (Cons a pre)
  then show ?case by (cases pre) auto
qed

lemma insert_before_split:
  "ref \<notin> set pre \<Longrightarrow> insert_before new ref (pre @ ref # post) = pre @ new # ref # post"
  by (induction pre) auto

lemma findInsertBefore_None:
  "findInsertBefore sr d x cs = None \<Longrightarrow>
     \<forall>c \<in> set cs. c = d \<or> \<not> x < r_left (sr c) + r_width (sr c) / 2"
  by (induction cs) (auto simp: Let_def split: if_splits)

lemma findInsertBefore_Some:
  "findInsertBefore sr d x cs = Some k \<Longrightarrow>
     \<exists>cs1 cs2. cs = cs1 @ k # cs2 \<and> k \<noteq> d \<and> x < r_left (sr k) + r_width (sr k) / 2 \<and>
       (\<forall>c \<in> set cs1. c = d \<or> \<not> x < r_left (sr c) + r_width (sr c) / 2)"
proof (induction cs)
  case Nil
  then show ?case by simp
next
  case (Cons a cs)
  show ?case
  proof (cases "a \<noteq> d \<and> x < r_left (sr a) + r_width (sr a) / 2")
    case True
    with Cons.prems have "k = a" by (simp add: Let_def)
    with True show ?thesis by (intro exI [of _ "[]"] exI [of _ cs]) simp
  next
    case False
    with Cons.prems have "findInsertBefore sr d x cs = Some k"
      by (auto simp: Let_def split: if_splits)
    from Cons.IH [OF this] obtain cs1 cs2 where
      "cs = cs1 @ k # cs2" "k \<noteq> d" "x < r_left (sr k) + r_width (sr k) / 2"
      "\<forall>c \<in> set cs1. c = d \<or> \<not> x < r_left (sr c) + r_width (sr c) / 2"
      by blast
    with False show ?thesis
      by (intro exI [of _ "a # cs1"] exI [of _ cs2]) auto
  qed
qed

subsection \<open>Reindexing\<close>

lemma reindex_from_fields [simp]:
  "cards (reindex_from i n cs s) = cards s"
  "playedCards (reindex_from i n cs s) = playedCards s"
  "isFan (reindex_from i n cs s) = isFan s"
  "lightboxEffect (reindex_from i n cs s) = lightboxEffect s"
  "pointerState (reindex_from i n cs s) = pointerState s"
  "holoEffect (reindex_from i n cs s) = holoEffect s"
  "handChildren (reindex_from i n cs s) = handChildren s"
  "playChildren (reindex_from i n cs s) = playChildren s"
  "bodyChildren (reindex_from i n cs s) = bodyChildren s"
  "lightboxActive (reindex_from i n cs s) = lightboxActive s"
  "handFlat (reindex_from i n cs s) = handFlat s"
  "dropHover (reindex_from i n cs s) = dropHover s"
  "fieldFull (reindex_from i n cs s) = fieldFull s"
  "nextCard (reindex_from i n cs s) = nextCard s"
  "nextPlaceholder (reindex_from i n cs s) = nextPlaceholder s"
  "now (reindex_from i n cs s) = now s"
  "timers (reindex_from i n cs s) = timers s"
  "nextTimer (reindex_from i n cs s) = nextTimer s"
  "prefersReducedMotion (reindex_from i n cs s) = prefersReducedMotion s"
  "heap (reindex_from i n cs s) = heap s"
  "nextRef (reindex_from i n cs s) = nextRef s"
  "listeners (reindex_from i n cs s) = listeners s"
  "overlays (reindex_from i n cs s) = overlays s"
  "transform (reindex_from i n cs s) = transform s"
  "transition (reindex_from i n cs s) = transition s"
  "frames (reindex_from i n cs s) = frames s"
  "nextFrame (reindex_from i n cs s) = nextFrame s"
  by (induction cs arbitrary: i s; simp)+

lemma reindex_from_other:
  "c \<notin> set cs \<Longrightarrow> prop_i (reindex_from i n cs s) c = prop_i s c \<and>
     prop_n (reindex_from i n cs s) c = prop_n s c"
  by (induction cs arbitrary: i s) auto

lemma reindex_from_idem:
  "\<forall>k < length cs. prop_i s (cs ! k) = i + k \<Longrightarrow> \<forall>c \<in> set cs. prop_n s c = n \<Longrightarrow>
     reindex_from i n cs s = s"
proof (induction cs arbitrary: i)
  case Nil
  then show ?case by simp
next
  case (Cons c cs)
  from Cons.prems(1) have hd: "prop_i s c = i"
    by (metis add.right_neutral length_greater_0_conv list.distinct(1) nth_Cons_0)
  have tl: "\<forall>k < length cs. prop_i s (cs ! k) = Suc i + k"
  proof (intro allI impI)
    fix k assume "k < length cs"
    then have "prop_i s ((c # cs) ! Suc k) = i + Suc k"
      using Cons.prems(1) by (metis Suc_less_eq length_Cons)
    then show "prop_i s (cs ! k) = Suc i + k" by simp
  qed
  have "s\<lparr> prop_i := (prop_i s)(c := i), prop_n := (prop_n s)(c := n) \<rparr> = s"
    using hd Cons.prems(2) by (simp add: fun_upd_idem)
  then show ?case using Cons.IH [OF tl] Cons.prems(2) by simp
qed

lemma reindex_from_indexed:
  "distinct cs \<Longrightarrow> (\<forall>k < length cs. prop_i (reindex_from i n cs s) (cs ! k) = i + k) \<and>
     (\<forall>c \<in> set cs. prop_n (reindex_from i n cs s) c = n)"
proof (induction cs arbitrary: i s)
  case Nil
  then show ?case by simp
next
  case (Cons c cs)
  let ?s1 = "s\<lparr> prop_i := (prop_i s)(c := i), prop_n := (prop_n s)(c := n) \<rparr>"
  let ?s2 = "reindex_from (Suc i) n cs ?s1"
  from Cons.prems have c: "c \<notin> set cs" and d: "distinct cs" by simp_all
  have hd: "prop_i ?s2 c = i" "prop_n ?s2 c = n"
    using reindex_from_other [OF c, of "Suc i" n ?s1] by simp_all
  have ih: "\<forall>k < length cs. prop_i ?s2 (cs ! k) = Suc i + k" "\<forall>c \<in> set cs. prop_n ?s2 c = n"
    using Cons.IH [OF d, of "Suc i" ?s1] by simp_all
  have "prop_i ?s2 ((c # cs) ! k) = i + k" if "k < length (c # cs)" for k
    using that hd(1) ih(1) by (cases k) simp_all
  then show ?case using hd(2) ih(2) by simp
qed

lemma indexed_nth:
  "indexed s \<longleftrightarrow> (\<forall>k < length (cards s). prop_i s (cards s ! k) = k) \<and>
     (\<forall>c \<in> set (cards s). prop_n s c = length (cards s))"
proof -
  have "map (prop_i s) (cards s) = [0 ..< length (cards s)] \<longleftrightarrow>
      (\<forall>k < length (cards s). prop_i s (cards s ! k) = k)"
    by (subst list_eq_iff_nth_eq) simp
  then show ?thesis by (simp add: indexed_def)
qed

lemma reindexHand_fields [simp]:
  "cards (reindexHand s) = cards s"
  "playedCards (reindexHand s) = playedCards s"
  "isFan (reindexHand s) = isFan s"
  "lightboxEffect (reindexHand s) = lightboxEffect s"
  "pointerState (reindexHand s) = pointerState s"
  "holoEffect (reindexHand s) = holoEffect s"
  "handChildren (reindexHand s) = handChildren s"
  "playChildren (reindexHand s) = playChildren s"
  "bodyChildren (reindexHand s) = bodyChildren s"
  "lightboxActive (reindexHand s) = lightboxActive s"
  "handFlat (reindexHand s) = handFlat s"
  "dropHover (reindexHand s) = dropHover s"
  "fieldFull (reindexHand s) = fieldFull s"
  "nextCard (reindexHand s) = nextCard s"
  "nextPlaceholder (reindexHand s) = nextPlaceholder s"
  "now (reindexHand s) = now s"
  "timers (reindexHand s) = timers s"
  "nextTimer (reindexHand s) = nextTimer s"
  "prefersReducedMotion (reindexHand s) = prefersReducedMotion s"
  "heap (reindexHand s) = heap s"
  "nextRef (reindexHand s) = nextRef s"
  "listeners (reindexHand s) = listeners s"
  "overlays (reindexHand s) = overlays s"
  "transform (reindexHand s) = transform s"
  "transition (reindexHand s) = transition s"
  "frames (reindexHand s) = frames s"
  "nextFrame (reindexHand s) = nextFrame s"
  by (simp_all add: reindexHand_def)

lemma reindexHand_idem: "indexed s \<Longrightarrow> reindexHand s = s"
  unfolding reindexHand_def
  by (rule reindex_from_idem) (simp_all add: indexed_nth)

lemma reindexHand_indexed: "distinct (cards s) \<Longrightarrow> indexed (reindexHand s)"
  unfolding indexed_nth
  using reindex_from_indexed [of "cards s" 0 "length (cards s)" s]
  by (simp add: reindexHand_def)

lemma reindexHand_other:
  "c \<notin> set (cards s) \<Longrightarrow> prop_i (reindexHand s) c = prop_i s c \<and> prop_n (reindexHand s) c = prop_n s c"
  by (simp add: reindexHand_def reindex_from_other)

section \<open>Resolving and updating a drag\<close>

lemma removeAll_map_SlotEl: "removeAll (SlotEl c) (map SlotEl ks) = map SlotEl (removeAll c ks)"
  by (induction ks) auto

lemma removeAll_placeholder_slots: "removeAll (PlaceholderEl p) (map SlotEl ks) = map SlotEl ks"
  by (induction ks) auto

lemma drag_dom_split:
  assumes "drag_dom s c p"
  obtains ks1 ks2 where "handChildren s = map SlotEl ks1 @ PlaceholderEl p # map SlotEl ks2"
    and "ks1 @ ks2 = removeAll c (cards s)"
proof -
  from assms have d: "distinct (handChildren s)" and m: "PlaceholderEl p \<in> set (handChildren s)"
    and r: "removeAll (PlaceholderEl p) (handChildren s) = map SlotEl (removeAll c (cards s))"
    by (simp_all add: drag_dom_def)
  from m obtain a b where ab: "handChildren s = a @ PlaceholderEl p # b"
    by (meson split_list)
  with d have na: "PlaceholderEl p \<notin> set a" and nb: "PlaceholderEl p \<notin> set b"
    by auto
  then have "removeAll (PlaceholderEl p) (handChildren s) = a @ b"
    by (simp add: ab)
  with r have "map SlotEl (removeAll c (cards s)) = a @ b" by simp
  then obtain ks1 ks2 where "removeAll c (cards s) = ks1 @ ks2" "a = map SlotEl ks1" "b = map SlotEl ks2"
    by (auto simp: map_eq_append_conv)
  with ab that show thesis by simp
qed

lemma cleanupPointer_some:
  "pointerState s = Some ps \<Longrightarrow> cleanupPointer False s = s\<lparr> pointerState := None \<rparr>"
  by (simp add: cleanupPointer_def)

lemma in_dragD:
  assumes "in_drag s c p"
  obtains ps where "pointerState s = Some ps" "isDragging ps" "card_ref ps = c"
    "placeholder ps = Some p" "tidy s" "c \<in> set (cards s)" "drag_dom s c p"
  using assms by (auto simp: in_drag_def wf_page_def split: option.splits if_splits)

lemma endDrag_drop:
  assumes drag: "in_drag s c p" and ov: "over (playRect lay) x y"
    and room: "length (playedCards s) < MAX_FIELD"
  shows "\<exists>s'. endDrag x y lay s = Inr s' \<and> cards s' = removeAll c (cards s) \<and>
     playedCards s' = playedCards s @ [c] \<and> prop_i s' c = 0 \<and> prop_n s' c = 1 \<and>
     pointerState s' = None \<and> holoEffect s' = (holoEffect s)(c := nextRef s) \<and>
     nextRef s' = Suc (nextRef s) \<and> timers s' = timers s \<and>
     lightboxActive s' = lightboxActive s \<and> wf_page s'"
proof -
  from drag obtain ps where ps: "pointerState s = Some ps" "isDragging ps" "card_ref ps = c"
    "placeholder ps = Some p" and tidy: "tidy s" and cin: "c \<in> set (cards s)"
    and dom: "drag_dom s c p"
    by (rule in_dragD)
  from dom obtain ks1 ks2 where hand: "handChildren s = map SlotEl ks1 @ PlaceholderEl p # map SlotEl ks2"
    and ks: "ks1 @ ks2 = removeAll c (cards s)"
    by (rule drag_dom_split)
  from tidy have dc: "distinct (cards s)" and dp: "distinct (playedCards s)"
    and disj: "set (cards s) \<inter> set (playedCards s) = {}"
    and play: "playChildren s = map SlotEl (playedCards s)"
    and alloc: "\<forall>c \<in> set (cards s) \<union> set (playedCards s). holoEffect s c < nextRef s"
    by (simp_all add: tidy_def)
  from dom have body: "bodyChildren s = [SlotEl c]" by (simp add: drag_dom_def)
  have cnp: "c \<notin> set (playedCards s)" using cin disj by blast
  define s6 where "s6 = (appendChild PlayC (SlotEl c)
      ((detach (PlaceholderEl p) (s\<lparr> dropHover := False, fieldFull := False \<rparr>))
        \<lparr> cards := removeAll c (cards s),
          prop_i := (prop_i s)(c := 0), prop_n := (prop_n s)(c := 1) \<rparr>))
      \<lparr> playedCards := playedCards s @ [c] \<rparr>"
  define s8 where "s8 = (attached (InnerEl c) s6)\<lparr> holoEffect := (holoEffect s)(c := nextRef s) \<rparr>"
  define s' where "s' = cleanupPointer False (reindexHand s8)"
  have sp: "splice1 (indexOf (cards s) c) (cards s) = removeAll c (cards s)"
    using cin dc by (simp add: splice1_indexOf distinct_remove1_removeAll)
  have run: "endDrag x y lay s = Inr s'"
    using ps ov room
    by (simp add: endDrag_def Let_def bindE_def sp s'_def s8_def s6_def)
  have ps8: "pointerState (reindexHand s8) = Some ps"
    by (simp add: s8_def s6_def ps)
  have s'_eq: "s' = (reindexHand s8)\<lparr> pointerState := None \<rparr>"
    unfolding s'_def by (rule cleanupPointer_some [OF ps8])
  have cards': "cards s' = removeAll c (cards s)"
    by (simp add: s'_eq s8_def s6_def)
  have played': "playedCards s' = playedCards s @ [c]"
    by (simp add: s'_eq s8_def s6_def)
  have c8: "c \<notin> set (cards s8)"
    by (simp add: s8_def s6_def)
  have props: "prop_i s' c = 0" "prop_n s' c = 1"
    using reindexHand_other [OF c8] by (simp_all add: s'_eq s8_def s6_def)
  have holo: "holoEffect s' = (holoEffect s)(c := nextRef s)"
    by (simp add: s'_eq s8_def)
  have nref: "nextRef s' = Suc (nextRef s)"
    by (simp add: s'_eq s8_def s6_def)
  have hand': "handChildren s' = map SlotEl (cards s')"
    using dom by (simp add: s'_eq s8_def s6_def cards' drag_dom_def removeAll_map_SlotEl)
  have play': "playChildren s' = map SlotEl (playedCards s')"
    using cnp by (simp add: s'_eq s8_def s6_def played' play removeAll_placeholder_slots removeAll_map_SlotEl)
  have body': "bodyChildren s' = []"
    by (simp add: s'_eq s8_def s6_def body)
  have idx: "indexed s'"
  proof -
    have "distinct (cards s8)" using dc by (simp add: s8_def s6_def distinct_removeAll)
    then have "indexed (reindexHand s8)" by (rule reindexHand_indexed)
    then show ?thesis by (simp add: s'_eq indexed_def)
  qed
  have tidy': "tidy s'"
    unfolding tidy_def
    using dc dp disj cnp room alloc idx
    by (auto simp: cards' played' play' holo nref distinct_removeAll less_SucI)
  have "wf_page s'"
    using tidy' hand' body' by (simp add: wf_page_def rest_dom_def s'_eq)
  moreover have "timers s' = timers s" "lightboxActive s' = lightboxActive s" "pointerState s' = None"
    by (simp_all add: s'_eq s8_def s6_def)
  ultimately show ?thesis
    using run cards' played' props holo nref by blast
qed


lemma indexOf_slots: "(\<lambda>a. indexOf (map SlotEl ks) (SlotEl a)) = indexOf ks"
  by (rule ext) (simp add: indexOf_map_inj inj_def)

lemma filter_is_slot_map: "filter is_slot (map SlotEl ks) = map SlotEl ks"
  by (induction ks) auto

lemma removeAll_split:
  assumes "distinct cs" "c \<in> set cs" "ks1 @ ks2 = removeAll c cs"
  shows "distinct (ks1 @ c # ks2)" "set (ks1 @ c # ks2) = set cs" "c \<notin> set ks1" "c \<notin> set ks2"
proof -
  have d: "distinct (ks1 @ ks2)" using assms(1,3) by (metis distinct_removeAll)
  have m: "set (ks1 @ ks2) = set cs - {c}" using assms(3) by (metis set_removeAll)
  from m show "c \<notin> set ks1" "c \<notin> set ks2" by auto
  with d show "distinct (ks1 @ c # ks2)" by auto
  from m assms(2) show "set (ks1 @ c # ks2) = set cs" by auto
qed

lemma endDrag_return:
  assumes drag: "in_drag s c p"
    and ret: "\<not> over (playRect lay) x y \<or> MAX_FIELD \<le> length (playedCards s)"
    and hand: "handChildren s = map SlotEl ks1 @ PlaceholderEl p # map SlotEl ks2"
  shows "\<exists>s'. endDrag x y lay s = Inr s' \<and> cards s' = ks1 @ c # ks2 \<and>
     handChildren s' = map SlotEl (ks1 @ c # ks2) \<and>
     playedCards s' = playedCards s \<and> playChildren s' = playChildren s \<and>
     pointerState s' = None \<and> holoEffect s' = (holoEffect s)(c := nextRef s) \<and>
     nextRef s' = Suc (nextRef s) \<and> timers s' = timers s \<and>
     lightboxActive s' = lightboxActive s \<and> wf_page s'"
proof -
  from drag obtain ps where ps: "pointerState s = Some ps" "isDragging ps" "card_ref ps = c"
    "placeholder ps = Some p" and tidy: "tidy s" and cin: "c \<in> set (cards s)"
    and dom: "drag_dom s c p"
    by (rule in_dragD)
  from tidy have dc: "distinct (cards s)" and dp: "distinct (playedCards s)"
    and disj: "set (cards s) \<inter> set (playedCards s) = {}"
    and play: "playChildren s = map SlotEl (playedCards s)"
    and cap: "length (playedCards s) \<le> MAX_FIELD"
    and alloc: "\<forall>c \<in> set (cards s) \<union> set (playedCards s). holoEffect s c < nextRef s"
    by (simp_all add: tidy_def)
  from dom have body: "bodyChildren s = [SlotEl c]" and dh: "distinct (handChildren s)"
    and rem: "removeAll (PlaceholderEl p) (handChildren s) = map SlotEl (removeAll c (cards s))"
    by (simp_all add: drag_dom_def)
  have ks: "ks1 @ ks2 = removeAll c (cards s)"
  proof -
    have "removeAll (PlaceholderEl p) (handChildren s) = map SlotEl (ks1 @ ks2)"
      by (simp add: hand removeAll_placeholder_slots)
    with rem have "map SlotEl (ks1 @ ks2) = map SlotEl (removeAll c (cards s))" by simp
    moreover have "inj SlotEl" by (simp add: inj_def)
    ultimately show ?thesis by (simp only: inj_map_eq_map)
  qed
  note sp = removeAll_split [OF dc cin ks]
  have cnp: "c \<notin> set (playedCards s)" using cin disj by blast
  have pn1: "PlaceholderEl p \<notin> set (map SlotEl ks1)" by auto
  let ?s1 = "s\<lparr> dropHover := False, fieldFull := False \<rparr>"
  let ?s2 = "detach (PlaceholderEl p) ?s1"
  have parent: "parentNode (PlaceholderEl p) ?s1 = Some HandC"
    by (simp add: parentNode_def hand)
  have nxt: "nextSibling (PlaceholderEl p) ?s1 = (case ks2 of [] \<Rightarrow> None | k # ks \<Rightarrow> Some (SlotEl k))"
    using next_after_split [OF pn1, of "map SlotEl ks2"]
    by (simp add: nextSibling_def parent hand split: list.splits)
  have hand2: "handChildren ?s2 = map SlotEl (ks1 @ ks2)"
    by (simp add: hand removeAll_placeholder_slots)
  have play2: "playChildren ?s2 = playChildren s"
    by (simp add: play removeAll_placeholder_slots)
  have body2: "bodyChildren ?s2 = [SlotEl c]"
    by (simp add: body)
  define placed where "placed = (case nextSibling (PlaceholderEl p) ?s1 of
       Some n \<Rightarrow> insertBefore HandC (SlotEl c) n ?s2
     | None \<Rightarrow> Inr (appendChild HandC (SlotEl c) ?s2))"
  have "\<exists>s3. placed = Inr s3 \<and> handChildren s3 = map SlotEl (ks1 @ c # ks2) \<and>
      playChildren s3 = playChildren s \<and> bodyChildren s3 = [] \<and>
      s3\<lparr> handChildren := [], playChildren := [], bodyChildren := [] \<rparr> =
      ?s1\<lparr> handChildren := [], playChildren := [], bodyChildren := [] \<rparr>"
  proof (cases ks2)
    case Nil
    have "removeAll c ks1 = ks1"
      using sp(3) by simp
    then show ?thesis
      using cnp by (simp add: placed_def nxt Nil hand play body removeAll_placeholder_slots
          removeAll_map_SlotEl appendChild_def detach_def)
  next
    case (Cons k ks)
    have kc: "k \<noteq> c" using sp(4) Cons by auto
    have k1: "SlotEl k \<notin> set (map SlotEl ks1)"
      using sp(1) Cons by auto
    have r1: "removeAll c ks1 = ks1"
      using sp(3) by simp
    have r2: "removeAll c ks = ks"
      using sp(4) Cons by simp
    have ib: "insert_before (SlotEl c) (SlotEl k) (map SlotEl ks1 @ SlotEl k # map SlotEl ks) =
        map SlotEl ks1 @ SlotEl c # SlotEl k # map SlotEl ks"
      using k1 by (rule insert_before_split)
    show ?thesis
      using cnp kc
      by (simp add: placed_def nxt Cons hand play body removeAll_placeholder_slots
          removeAll_map_SlotEl insertBefore_def detach_def Let_def r1 r2 ib)
  qed
  then obtain s3 where s3: "placed = Inr s3" "handChildren s3 = map SlotEl (ks1 @ c # ks2)"
    "playChildren s3 = playChildren s" "bodyChildren s3 = []"
    and rest: "s3\<lparr> handChildren := [], playChildren := [], bodyChildren := [] \<rparr> =
      ?s1\<lparr> handChildren := [], playChildren := [], bodyChildren := [] \<rparr>"
    by blast
  have f3: "cards s3 = cards s" "playedCards s3 = playedCards s" "pointerState s3 = pointerState s"
    "holoEffect s3 = holoEffect s" "nextRef s3 = nextRef s" "timers s3 = timers s"
    "lightboxActive s3 = lightboxActive s"
    using arg_cong [OF rest, of cards] arg_cong [OF rest, of playedCards]
      arg_cong [OF rest, of pointerState] arg_cong [OF rest, of holoEffect]
      arg_cong [OF rest, of nextRef] arg_cong [OF rest, of timers]
      arg_cong [OF rest, of lightboxActive]
    by simp_all
  have srt: "sort_key (\<lambda>a. indexOf (filter is_slot (handChildren s3)) (SlotEl a)) (cards s3) =
      ks1 @ c # ks2"
    unfolding s3(2) filter_is_slot_map indexOf_slots f3
    using sp(1) dc sp(2) [symmetric] by (rule sort_key_indexOf)
  define s4 where "s4 = s3\<lparr> cards := ks1 @ c # ks2 \<rparr>"
  define s6 where "s6 = (attached (InnerEl c) s4)\<lparr> holoEffect := (holoEffect s)(c := nextRef s) \<rparr>"
  define s' where "s' = cleanupPointer False (reindexHand s6)"
  have run: "endDrag x y lay s = Inr s'"
    using ps ret s3(1) srt cap
    by (auto simp: endDrag_def Let_def bindE_def placed_def
        s'_def s6_def s4_def f3)
  have ps6: "pointerState (reindexHand s6) = Some ps"
    by (simp add: s6_def s4_def f3 ps)
  have s'_eq: "s' = (reindexHand s6)\<lparr> pointerState := None \<rparr>"
    unfolding s'_def by (rule cleanupPointer_some [OF ps6])
  have cards': "cards s' = ks1 @ c # ks2"
    by (simp add: s'_eq s6_def s4_def)
  have played': "playedCards s' = playedCards s"
    by (simp add: s'_eq s6_def s4_def f3)
  have holo: "holoEffect s' = (holoEffect s)(c := nextRef s)"
    by (simp add: s'_eq s6_def)
  have nref: "nextRef s' = Suc (nextRef s)"
    by (simp add: s'_eq s6_def s4_def f3)
  have hand': "handChildren s' = map SlotEl (ks1 @ c # ks2)"
    by (simp add: s'_eq s6_def s4_def s3)
  have play': "playChildren s' = playChildren s"
    by (simp add: s'_eq s6_def s4_def s3)
  have body': "bodyChildren s' = []"
    by (simp add: s'_eq s6_def s4_def s3)
  have idx: "indexed s'"
  proof -
    have "distinct (cards s6)" using sp(1) by (simp add: s6_def s4_def)
    then have "indexed (reindexHand s6)" by (rule reindexHand_indexed)
    then show ?thesis by (simp add: s'_eq indexed_def)
  qed
  have tidy': "tidy s'"
    unfolding tidy_def
    using sp(1) sp(2) dp disj cap alloc idx play
    by (auto simp: cards' played' play' holo nref less_SucI simp del: distinct_append set_append)
  have "wf_page s'"
    using tidy' hand' body' cards' by (simp add: wf_page_def rest_dom_def s'_eq)
  moreover have "timers s' = timers s" "lightboxActive s' = lightboxActive s" "pointerState s' = None"
    by (simp_all add: s'_eq s6_def s4_def f3)
  ultimately show ?thesis
    using run cards' played' hand' play' holo nref by blast
qed


lemma in_drag_hover [simp]: "in_drag (s\<lparr> dropHover := a, fieldFull := b \<rparr>) c p = in_drag s c p"
  by (auto simp: in_drag_def wf_page_def tidy_def indexed_def rest_dom_def drag_dom_def
      split: option.splits)

lemma in_drag_hand:
  assumes "in_drag s c p" "ks1 @ ks2 = removeAll c (cards s)"
  shows "in_drag (s\<lparr> handChildren := map SlotEl ks1 @ PlaceholderEl p # map SlotEl ks2 \<rparr>) c p"
proof -
  from assms(1) obtain ps where ps: "pointerState s = Some ps" "isDragging ps" "card_ref ps = c"
    "placeholder ps = Some p" and tidy: "tidy s" and cin: "c \<in> set (cards s)"
    and dom: "drag_dom s c p"
    by (rule in_dragD)
  from tidy have dc: "distinct (cards s)" by (simp add: tidy_def)
  have "distinct (ks1 @ ks2)" using dc assms(2) by (metis distinct_removeAll)
  then have "distinct (map SlotEl ks1 @ PlaceholderEl p # map SlotEl ks2)"
    by (auto simp: distinct_map inj_on_def)
  moreover have "removeAll (PlaceholderEl p) (map SlotEl ks1 @ PlaceholderEl p # map SlotEl ks2) =
      map SlotEl (removeAll c (cards s))"
    using assms(2) [symmetric] by (simp add: removeAll_placeholder_slots)
  ultimately show ?thesis
    using ps tidy cin dom
    by (simp add: in_drag_def wf_page_def tidy_def indexed_def drag_dom_def)
qed

lemma updateDrag_away:
  assumes drag: "in_drag s c p"
    and away: "over (playRect lay) x y \<or> \<not> overHand (handRect lay) x y"
  shows "updateDrag x y lay s =
     Inr (s\<lparr> dropHover := (over (playRect lay) x y \<and> \<not> MAX_FIELD \<le> length (playedCards s)),
              fieldFull := (over (playRect lay) x y \<and> MAX_FIELD \<le> length (playedCards s)) \<rparr>)"
proof -
  from drag obtain ps where "pointerState s = Some ps"
    by (rule in_dragD)
  with away show ?thesis
    by (auto simp: updateDrag_def Let_def)
qed

lemma updateDrag_hand:
  assumes drag: "in_drag s c p"
    and off: "\<not> over (playRect lay) x y" and on: "overHand (handRect lay) x y"
  shows "\<exists>ks1 ks2. ks1 @ ks2 = removeAll c (cards s) \<and>
     (\<forall>k \<in> set ks1. \<not> x < slot_midX lay k) \<and>
     (case ks2 of [] \<Rightarrow> True | k # ks \<Rightarrow> x < slot_midX lay k) \<and>
     updateDrag x y lay s =
       Inr (s\<lparr> dropHover := False, fieldFull := False,
                handChildren := map SlotEl ks1 @ PlaceholderEl p # map SlotEl ks2 \<rparr>)"
proof -
  from drag obtain ps where ps: "pointerState s = Some ps" "isDragging ps" "card_ref ps = c"
    "placeholder ps = Some p" and tidy: "tidy s" and cin: "c \<in> set (cards s)"
    and dom: "drag_dom s c p"
    by (rule in_dragD)
  from tidy have dc: "distinct (cards s)"
    and play: "playChildren s = map SlotEl (playedCards s)"
    by (simp_all add: tidy_def)
  from dom have body: "bodyChildren s = [SlotEl c]"
    and rem: "removeAll (PlaceholderEl p) (handChildren s) = map SlotEl (removeAll c (cards s))"
    by (simp_all add: drag_dom_def)
  let ?s1 = "s\<lparr> dropHover := False, fieldFull := False \<rparr>"
  let ?mid = "\<lambda>k. r_left (slotRect lay k) + r_width (slotRect lay k) / 2"
  have upd: "updateDrag x y lay s =
      (case findInsertBefore (slotRect lay) c x (cards s) of
         Some k \<Rightarrow> insertBefore HandC (PlaceholderEl p) (SlotEl k) ?s1
       | None \<Rightarrow> Inr (appendChild HandC (PlaceholderEl p) ?s1))"
    using ps off on by (simp add: updateDrag_def Let_def split: option.splits)
  show ?thesis
  proof (cases "findInsertBefore (slotRect lay) c x (cards s)")
    case None
    have all: "\<forall>k \<in> set (removeAll c (cards s)). \<not> x < slot_midX lay k"
      using findInsertBefore_None [OF None] by (auto simp: slot_midX_def)
    have "appendChild HandC (PlaceholderEl p) ?s1 =
        s\<lparr> dropHover := False, fieldFull := False,
           handChildren := map SlotEl (removeAll c (cards s)) @ PlaceholderEl p # map SlotEl [] \<rparr>"
      by (simp add: appendChild_def detach_def rem play body removeAll_placeholder_slots)
    with upd None all show ?thesis
      by (intro exI [of _ "removeAll c (cards s)"] exI [of _ "[]"]) simp
  next
    case (Some k)
    from findInsertBefore_Some [OF Some] obtain cs1 cs2 where
      cs: "cards s = cs1 @ k # cs2" and kc: "k \<noteq> c" and lt: "x < ?mid k"
      and before: "\<forall>a \<in> set cs1. a = c \<or> \<not> x < ?mid a"
      by blast
    have rc: "removeAll c (cards s) = removeAll c cs1 @ k # removeAll c cs2"
      using kc by (simp add: cs)
    have k1: "SlotEl k \<notin> set (map SlotEl (removeAll c cs1))"
      using dc by (auto simp: cs)
    have kin: "SlotEl k \<in> set (handChildren s)"
    proof -
      have "SlotEl k \<in> set (removeAll (PlaceholderEl p) (handChildren s))"
        by (simp add: rem rc)
      then show ?thesis by simp
    qed
    have ib: "insert_before (PlaceholderEl p) (SlotEl k)
        (map SlotEl (removeAll c cs1) @ SlotEl k # map SlotEl (removeAll c cs2)) =
        map SlotEl (removeAll c cs1) @ PlaceholderEl p # SlotEl k # map SlotEl (removeAll c cs2)"
      using k1 by (rule insert_before_split)
    have "insertBefore HandC (PlaceholderEl p) (SlotEl k) ?s1 =
        Inr (s\<lparr> dropHover := False, fieldFull := False,
           handChildren := map SlotEl (removeAll c cs1) @ PlaceholderEl p # map SlotEl (k # removeAll c cs2) \<rparr>)"
      using kin by (simp add: insertBefore_def detach_def Let_def rem rc ib play body
          removeAll_placeholder_slots)
    moreover have "\<forall>a \<in> set (removeAll c cs1). \<not> x < slot_midX lay a"
      using before by (auto simp: slot_midX_def)
    moreover have "x < slot_midX lay k"
      using lt by (simp add: slot_midX_def)
    ultimately show ?thesis
      using upd Some rc
      by (intro exI [of _ "removeAll c cs1"] exI [of _ "k # removeAll c cs2"]) simp
  qed
qed

section \<open>The sample pages are well formed\<close>

lemma sample_drag_ok: "in_drag sample_drag 2 0"
  by (simp add: in_drag_def wf_page_def tidy_def indexed_def drag_dom_def sample_drag_def
      sample_hand_def sample_session_def empty_page_def MAX_FIELD_def)

lemma sample_full_drag_ok: "in_drag sample_full_drag 2 3"
  by (simp add: in_drag_def wf_page_def tidy_def indexed_def drag_dom_def sample_full_drag_def
      sample_table_def sample_hand_def sample_session_def empty_page_def MAX_FIELD_def)

lemma sample_table_ok: "wf_page sample_table"
  by (simp add: wf_page_def tidy_def indexed_def rest_dom_def
      sample_table_def sample_hand_def empty_page_def MAX_FIELD_def)

lemma sample_hand_ok: "wf_page sample_hand"
  by (simp add: wf_page_def tidy_def indexed_def rest_dom_def
      sample_hand_def empty_page_def MAX_FIELD_def)

section \<open>Dropping, returning and placing\<close>

lemma on_pointerup_drag:
  "in_drag s c p \<Longrightarrow> on_pointerup x y lay s = endDrag x y lay s"
  by (erule in_dragD) (simp add: on_pointerup_def)

lemma on_pointermove_drag:
  "in_drag s c p \<Longrightarrow> on_pointermove x y lay s = updateDrag x y lay s"
  by (erule in_dragD) (simp add: on_pointermove_def Let_def bindE_def)

lemma split_unique:
  "x \<notin> set a \<Longrightarrow> x \<notin> set a' \<Longrightarrow> a @ x # b = a' @ x # b' \<Longrightarrow> a = a' \<and> b = b'"
proof (induction a arbitrary: a')
  case Nil
  then show ?case by (cases a') auto
next
  case (Cons y ys)
  then show ?case by (cases a') auto
qed

text \<open>
  Claim C1. When a drag of card \<open>c\<close> ends with the pointer released inside the table
  region and fewer than 3 cards on the table, the card leaves \<open>cards\<close> and is appended
  to \<open>playedCards\<close> (and its slot to the table's children); the hand shrinks by one,
  the table grows by one, and the slot's \<open>--i\<close> and \<open>--n\<close> are 0 and 1.
\<close>

theorem drop_on_table:
  assumes "in_drag s c p" and "over (playRect lay) x y" and "length (playedCards s) < 3"
  shows "\<exists>s'. on_pointerup x y lay s = Inr s' \<and>
     cards s' = removeAll c (cards s) \<and> c \<in> set (cards s) \<and> c \<notin> set (cards s') \<and>
     playedCards s' = playedCards s @ [c] \<and>
     playChildren s' = playChildren s @ [SlotEl c] \<and>
     length (playedCards s') = length (playedCards s) + 1 \<and>
     length (cards s') + 1 = length (cards s) \<and>
     prop_i s' c = 0 \<and> prop_n s' c = 1 \<and> pointerState s' = None"
proof -
  from assms(1) have cin: "c \<in> set (cards s)" and tidy: "tidy s"
    by (auto elim: in_dragD)
  from tidy have dc: "distinct (cards s)" and play: "playChildren s = map SlotEl (playedCards s)"
    by (simp_all add: tidy_def)
  from assms(3) have room: "length (playedCards s) < MAX_FIELD"
    by (simp add: MAX_FIELD_def)
  from endDrag_drop [OF assms(1,2) room] obtain s' where
    s': "endDrag x y lay s = Inr s'" "cards s' = removeAll c (cards s)"
    "playedCards s' = playedCards s @ [c]" "prop_i s' c = 0" "prop_n s' c = 1"
    "pointerState s' = None" "wf_page s'"
    by blast
  have len: "length (removeAll c (cards s)) + 1 = length (cards s)"
    using dc cin by (simp add: distinct_remove1_removeAll [symmetric] length_remove1)
      (metis One_nat_def Suc_pred length_pos_if_in_set)
  have "playChildren s' = map SlotEl (playedCards s')"
    using s'(7) by (simp add: wf_page_def tidy_def)
  then have "playChildren s' = playChildren s @ [SlotEl c]"
    by (simp add: s'(3) play)
  with s' len cin show ?thesis
    by (simp add: on_pointerup_drag [OF assms(1)])
qed

theorem drop_on_table_witness:
  "in_drag sample_drag 2 0 \<and> over (playRect sample_layout) 300 300 \<and>
   length (playedCards sample_drag) < 3 \<and>
   (\<exists>s'. on_pointerup 300 300 sample_layout sample_drag = Inr s' \<and>
      cards s' = [0, 1, 3, 4, 5] \<and> playedCards s' = [2] \<and> prop_i s' 2 = 0 \<and> prop_n s' 2 = 1)"
proof -
  have ov: "over (playRect sample_layout) 300 300"
    by (simp add: over_def sample_layout_def r_right_def r_bottom_def)
  have len: "length (playedCards sample_drag) < 3"
    by (simp add: sample_drag_def sample_hand_def empty_page_def)
  have c: "cards sample_drag = [0, 1, 2, 3, 4, 5]" "playedCards sample_drag = []"
    by (simp_all add: sample_drag_def sample_hand_def empty_page_def)
  from drop_on_table [OF sample_drag_ok ov len] sample_drag_ok ov len show ?thesis
    by (auto simp: c)
qed

text \<open>
  Claim C2. When a drag of card \<open>c\<close> ends with the pointer released inside the table
  region and 3 cards on the table, the table is left as it was and the card's slot takes
  the place the placeholder had among the hand's children at the release; \<open>cards\<close> is
  put in the order of the hand's children.
\<close>

theorem full_table_returns_card:
  assumes "in_drag s c p" and "over (playRect lay) x y" and "length (playedCards s) = 3"
    and "handChildren s = before @ PlaceholderEl p # after"
  shows "\<exists>s'. on_pointerup x y lay s = Inr s' \<and>
     playedCards s' = playedCards s \<and> playChildren s' = playChildren s \<and>
     handChildren s' = before @ SlotEl c # after \<and>
     handChildren s' = map SlotEl (cards s') \<and> pointerState s' = None"
proof -
  from assms(1) have dom: "drag_dom s c p"
    by (auto elim: in_dragD)
  from dom obtain ks1 ks2 where hand: "handChildren s = map SlotEl ks1 @ PlaceholderEl p # map SlotEl ks2"
    by (rule drag_dom_split)
  have "distinct (before @ PlaceholderEl p # after)"
    using dom by (simp add: drag_dom_def assms(4))
  then have "PlaceholderEl p \<notin> set before"
    by simp
  moreover have "PlaceholderEl p \<notin> set (map SlotEl ks1)"
    by auto
  moreover have "before @ PlaceholderEl p # after = map SlotEl ks1 @ PlaceholderEl p # map SlotEl ks2"
    using hand assms(4) by simp
  ultimately have ba: "before = map SlotEl ks1 \<and> after = map SlotEl ks2"
    by (rule split_unique)
  have full: "\<not> over (playRect lay) x y \<or> MAX_FIELD \<le> length (playedCards s)"
    using assms(3) by (simp add: MAX_FIELD_def)
  from endDrag_return [OF assms(1) full hand] obtain s' where
    "endDrag x y lay s = Inr s'" "cards s' = ks1 @ c # ks2"
    "handChildren s' = map SlotEl (ks1 @ c # ks2)"
    "playedCards s' = playedCards s" "playChildren s' = playChildren s" "pointerState s' = None"
    by blast
  then show ?thesis
    by (simp add: on_pointerup_drag [OF assms(1)] ba)
qed

theorem full_table_returns_card_witness:
  "in_drag sample_full_drag 2 3 \<and> over (playRect sample_layout) 300 300 \<and>
   length (playedCards sample_full_drag) = 3 \<and>
   handChildren sample_full_drag = [SlotEl 0] @ PlaceholderEl 3 # [SlotEl 1] \<and>
   (\<exists>s'. on_pointerup 300 300 sample_layout sample_full_drag = Inr s' \<and>
      playedCards s' = [3, 4, 5] \<and> handChildren s' = [SlotEl 0, SlotEl 2, SlotEl 1])"
proof -
  have ov: "over (playRect sample_layout) 300 300"
    by (simp add: over_def sample_layout_def r_right_def r_bottom_def)
  have len: "length (playedCards sample_full_drag) = 3"
    and hand: "handChildren sample_full_drag = [SlotEl 0] @ PlaceholderEl 3 # [SlotEl 1]"
    and pl: "playedCards sample_full_drag = [3, 4, 5]"
    by (simp_all add: sample_full_drag_def sample_table_def sample_hand_def empty_page_def)
  from full_table_returns_card [OF sample_full_drag_ok ov len hand] sample_full_drag_ok ov len hand
  show ?thesis
    by (auto simp: pl)
qed




section \<open>Reset\<close>

text \<open>
  Claim C10. The reset listener pops the played cards from the end of \<open>playedCards\<close>
  and pushes each onto \<open>cards\<close>: the hand afterwards is the hand before followed by
  the table's cards in reverse order, and the table is empty.
\<close>

theorem reset_reverses_table:
  "\<exists>s'. reset_click s = Inr s' \<and> playedCards s' = [] \<and>
        cards s' = cards s @ rev (playedCards s)"
proof -
  from reset_loop_cards [of s] obtain s1 where
    "reset_loop s = Inr s1" "playedCards s1 = []" "cards s1 = cards s @ rev (playedCards s)"
    by blast
  then show ?thesis
    by (simp add: reset_click_def bindE_def)
qed

text \<open>
  Claim C8. The reset listener always ends with an empty table and a hand that holds the
  cards of the hand and of the table before it. With an empty table and an indexed hand
  it changes nothing. Every card that was on the table, provided its instance had been
  constructed, ends up holding an instance constructed during the reset, registered on
  the card's inner element, while the instance it held before is no longer registered on
  its element.
\<close>

theorem reset_returns_all:
  "(\<exists>s'. reset_click s = Inr s' \<and> playedCards s' = [] \<and>
      mset (cards s') = mset (cards s) + mset (playedCards s)) \<and>
   (playedCards s = [] \<and> indexed s \<longrightarrow> reset_click s = Inr s) \<and>
   ((\<forall>c \<in> set (playedCards s). holoEffect s c < nextRef s) \<longrightarrow>
    (\<exists>s'. reset_click s = Inr s' \<and>
      (\<forall>c \<in> set (playedCards s).
         nextRef s \<le> holoEffect s' c \<and> holoEffect s' c < nextRef s' \<and>
         holoEffect s' c \<noteq> holoEffect s c \<and>
         holoEffect s' c \<in> set (listeners s' (InnerEl c)) \<and>
         el (heap s' (holoEffect s' c)) = InnerEl c \<and>
         holoEffect s c \<notin> set (listeners s' (el (heap s (holoEffect s c)))))))"
proof (intro conjI impI)
  from reset_loop_cards [of s] obtain s1 where
    "reset_loop s = Inr s1" "playedCards s1 = []" "cards s1 = cards s @ rev (playedCards s)"
    by blast
  then show "\<exists>s'. reset_click s = Inr s' \<and> playedCards s' = [] \<and>
      mset (cards s') = mset (cards s) + mset (playedCards s)"
    by (simp add: reset_click_def bindE_def)
next
  assume "playedCards s = [] \<and> indexed s"
  then show "reset_click s = Inr s"
    by (simp add: reset_click_def bindE_def reset_loop_unfold reindexHand_idem)
next
  assume alloc: "\<forall>c \<in> set (playedCards s). holoEffect s c < nextRef s"
  from reset_loop_effects [OF alloc] obtain s1 where
    run: "reset_loop s = Inr s1" and
    fresh: "\<And>c. c \<in> set (playedCards s) \<Longrightarrow>
      nextRef s \<le> holoEffect s1 c \<and> holoEffect s1 c < nextRef s1 \<and>
      holoEffect s1 c \<in> set (listeners s1 (InnerEl c)) \<and>
      el (heap s1 (holoEffect s1 c)) = InnerEl c \<and>
      holoEffect s c \<notin> set (listeners s1 (el (heap s (holoEffect s c))))"
    by blast
  have "nextRef s \<le> holoEffect (reindexHand s1) c \<and>
      holoEffect (reindexHand s1) c < nextRef (reindexHand s1) \<and>
      holoEffect (reindexHand s1) c \<noteq> holoEffect s c \<and>
      holoEffect (reindexHand s1) c \<in> set (listeners (reindexHand s1) (InnerEl c)) \<and>
      el (heap (reindexHand s1) (holoEffect (reindexHand s1) c)) = InnerEl c \<and>
      holoEffect s c \<notin> set (listeners (reindexHand s1) (el (heap s (holoEffect s c))))"
    if "c \<in> set (playedCards s)" for c
    using fresh [OF that] alloc that by auto
  with run show "\<exists>s'. reset_click s = Inr s' \<and>
      (\<forall>c \<in> set (playedCards s).
         nextRef s \<le> holoEffect s' c \<and> holoEffect s' c < nextRef s' \<and>
         holoEffect s' c \<noteq> holoEffect s c \<and>
         holoEffect s' c \<in> set (listeners s' (InnerEl c)) \<and>
         el (heap s' (holoEffect s' c)) = InnerEl c \<and>
         holoEffect s c \<notin> set (listeners s' (el (heap s (holoEffect s c)))))"
    by (simp add: reset_click_def bindE_def)
qed

theorem reset_returns_all_witness:
  "playedCards sample_hand = [] \<and> indexed sample_hand \<and>
   reset_click sample_hand = Inr sample_hand \<and>
   playedCards sample_table = [3, 4, 5] \<and> nextRef sample_table = 9 \<and>
   holoEffect sample_table 3 = 6 \<and> holoEffect sample_table 4 = 7 \<and>
   holoEffect sample_table 5 = 8 \<and>
   (\<exists>s'. reset_click sample_table = Inr s' \<and>
      9 \<le> holoEffect s' 3 \<and> holoEffect s' 3 \<in> set (listeners s' (InnerEl 3)) \<and>
      9 \<le> holoEffect s' 4 \<and> holoEffect s' 4 \<in> set (listeners s' (InnerEl 4)) \<and>
      9 \<le> holoEffect s' 5 \<and> holoEffect s' 5 \<in> set (listeners s' (InnerEl 5)))"
proof -
  have h: "playedCards sample_hand = [] \<and> indexed sample_hand"
    by (simp add: indexed_def sample_hand_def empty_page_def)
  have p: "playedCards sample_table = [3, 4, 5]" "nextRef sample_table = 9"
    "holoEffect sample_table 3 = 6" "holoEffect sample_table 4 = 7" "holoEffect sample_table 5 = 8"
    by (simp_all add: sample_table_def sample_hand_def empty_page_def)
  have t: "\<forall>c \<in> set (playedCards sample_table). holoEffect sample_table c < nextRef sample_table"
    by (simp add: p)
  have 1: "reset_click sample_hand = Inr sample_hand"
    using reset_returns_all [of sample_hand] h by blast
  have "\<exists>s'. reset_click sample_table = Inr s' \<and>
      (\<forall>c \<in> set (playedCards sample_table).
         nextRef sample_table \<le> holoEffect s' c \<and>
         holoEffect s' c \<in> set (listeners s' (InnerEl c)))"
    using reset_returns_all [of sample_table] t by blast
  then obtain s' where "reset_click sample_table = Inr s'"
    "\<forall>c \<in> {3, 4, 5}. 9 \<le> holoEffect s' c \<and> holoEffect s' c \<in> set (listeners s' (InnerEl c))"
    by (auto simp: p)
  with h 1 p show ?thesis
    by auto
qed

theorem reset_reverses_table_witness:
  "\<exists>s'. reset_click sample_table = Inr s' \<and> playedCards s' = [] \<and> cards s' = [0, 1, 2, 5, 4, 3]"
  using reset_reverses_table [of sample_table]
  by (simp add: sample_table_def sample_hand_def empty_page_def)

section \<open>What the handlers leave alone; the capacity of the table\<close>

lemma clearTimeout_fields [simp]:
  "cards (clearTimeout tid s) = cards s" "playedCards (clearTimeout tid s) = playedCards s"
  "handChildren (clearTimeout tid s) = handChildren s" "playChildren (clearTimeout tid s) = playChildren s"
  "bodyChildren (clearTimeout tid s) = bodyChildren s" "pointerState (clearTimeout tid s) = pointerState s"
  "lightboxActive (clearTimeout tid s) = lightboxActive s" "lightboxEffect (clearTimeout tid s) = lightboxEffect s"
  "nextRef (clearTimeout tid s) = nextRef s" "listeners (clearTimeout tid s) = listeners s"
  "holoEffect (clearTimeout tid s) = holoEffect s" "heap (clearTimeout tid s) = heap s"
  "prop_i (clearTimeout tid s) = prop_i s" "prop_n (clearTimeout tid s) = prop_n s"
  "nextPlaceholder (clearTimeout tid s) = nextPlaceholder s"
  "timers (clearTimeout tid s) = filter (\<lambda>tm. fst tm \<noteq> tid) (timers s)"
  by (simp_all add: clearTimeout_def)

lemma cleanupPointer_fields [simp]:
  "cards (cleanupPointer b s) = cards s" "playedCards (cleanupPointer b s) = playedCards s"
  "handChildren (cleanupPointer b s) = handChildren s" "playChildren (cleanupPointer b s) = playChildren s"
  "bodyChildren (cleanupPointer b s) = bodyChildren s" "pointerState (cleanupPointer b s) = None"
  "lightboxActive (cleanupPointer b s) = lightboxActive s" "lightboxEffect (cleanupPointer b s) = lightboxEffect s"
  "nextRef (cleanupPointer b s) = nextRef s" "listeners (cleanupPointer b s) = listeners s"
  "holoEffect (cleanupPointer b s) = holoEffect s" "heap (cleanupPointer b s) = heap s"
  "prop_i (cleanupPointer b s) = prop_i s" "prop_n (cleanupPointer b s) = prop_n s"
  by (simp_all add: cleanupPointer_def Let_def split: option.splits)

lemma openLightbox_eq:
  "openLightbox s =
     Inr ((attached LightboxCardEl (s\<lparr> lightboxActive := True \<rparr>))\<lparr> lightboxEffect := Some (nextRef s) \<rparr>)"
  by (simp add: openLightbox_def bindE_def)

lemma insertBefore_frame:
  assumes "insertBefore q new ref s = Inr s'"
  shows "cards s' = cards s" "playedCards s' = playedCards s" "pointerState s' = pointerState s"
  using assms by (cases q; auto simp: insertBefore_def Let_def split: if_splits)+

lemma hold_callback_frame:
  assumes "hold_callback s = Inr s'"
  shows "cards s' = cards s" "playedCards s' = playedCards s"
    "handChildren s' = handChildren s" "playChildren s' = playChildren s"
  using assms
  by (auto simp: hold_callback_def openLightbox_eq split: option.splits if_splits)

lemma fire_frame:
  assumes "fire tid s = Inr s'"
  shows "cards s' = cards s" "playedCards s' = playedCards s"
    "handChildren s' = handChildren s" "playChildren s' = playChildren s"
  using assms hold_callback_frame [of "s\<lparr> timers := filter (\<lambda>tm. fst tm \<noteq> tid) (timers s) \<rparr>" s']
  by (auto simp: fire_def split: if_splits)

lemma fire_all_frame:
  "fire_all tids s = Inr s' \<Longrightarrow>
     cards s' = cards s \<and> playedCards s' = playedCards s \<and>
     handChildren s' = handChildren s \<and> playChildren s' = playChildren s"
proof (induction tids arbitrary: s)
  case Nil
  then show ?case by simp
next
  case (Cons tid tids)
  from Cons.prems obtain s1 where s1: "fire tid s = Inr s1" "fire_all tids s1 = Inr s'"
    by (auto simp: bindE_def split: sum.splits)
  from fire_frame [OF s1(1)] Cons.IH [OF s1(2)] show ?case by simp
qed

lemma advance_frame:
  assumes "advance t s = Inr s'"
  shows "cards s' = cards s" "playedCards s' = playedCards s"
    "handChildren s' = handChildren s" "playChildren s' = playChildren s"
proof -
  from assms obtain s1 where "fire_all (due_timers t s) s = Inr s1" "s' = s1\<lparr> now := max t (now s1) \<rparr>"
    by (auto simp: advance_def bindE_def split: sum.splits)
  with fire_all_frame [of "due_timers t s" s s1]
  show "cards s' = cards s" "playedCards s' = playedCards s"
    "handChildren s' = handChildren s" "playChildren s' = playChildren s"
    by simp_all
qed

lemma on_pointerdown_frame [simp]:
  "cards (on_pointerdown tg pid x y lay s) = cards s"
  "playedCards (on_pointerdown tg pid x y lay s) = playedCards s"
  "handChildren (on_pointerdown tg pid x y lay s) = handChildren s"
  "playChildren (on_pointerdown tg pid x y lay s) = playChildren s"
  "bodyChildren (on_pointerdown tg pid x y lay s) = bodyChildren s"
  "lightboxActive (on_pointerdown tg pid x y lay s) = lightboxActive s"
  "lightboxEffect (on_pointerdown tg pid x y lay s) = lightboxEffect s"
  "nextRef (on_pointerdown tg pid x y lay s) = nextRef s"
  "listeners (on_pointerdown tg pid x y lay s) = listeners s"
  "holoEffect (on_pointerdown tg pid x y lay s) = holoEffect s"
  "prop_i (on_pointerdown tg pid x y lay s) = prop_i s"
  "prop_n (on_pointerdown tg pid x y lay s) = prop_n s"
  by (simp_all add: on_pointerdown_def setTimeout_def Let_def split: option.splits)

lemma startDrag_frame:
  assumes "startDrag s = Inr s'"
  shows "cards s' = cards s" "playedCards s' = playedCards s"
  using assms
  by (auto simp: startDrag_def Let_def bindE_def dest: insertBefore_frame
      split: option.splits sum.splits)

lemma updateDrag_frame:
  assumes "updateDrag x y lay s = Inr s'"
  shows "cards s' = cards s" "playedCards s' = playedCards s"
  using assms
  by (auto simp: updateDrag_def Let_def dest: insertBefore_frame
      split: option.splits if_splits)

lemma on_pointermove_frame:
  assumes "on_pointermove x y lay s = Inr s'"
  shows "cards s' = cards s" "playedCards s' = playedCards s"
proof -
  show "cards s' = cards s"
    using assms
    by (auto simp: on_pointermove_def Let_def bindE_def
        dest!: startDrag_frame(1) updateDrag_frame(1) split: option.splits sum.splits if_splits)
  show "playedCards s' = playedCards s"
    using assms
    by (auto simp: on_pointermove_def Let_def bindE_def
        dest!: startDrag_frame(2) updateDrag_frame(2) split: option.splits sum.splits if_splits)
qed

lemma endDrag_capacity:
  assumes "endDrag x y lay s = Inr s'" "length (playedCards s) \<le> MAX_FIELD"
  shows "length (playedCards s') \<le> MAX_FIELD"
proof -
  from assms(1) obtain ps p where ps: "pointerState s = Some ps" "placeholder ps = Some p"
    by (auto simp: endDrag_def Let_def split: option.splits)
  let ?c = "card_ref ps"
  let ?s1 = "s\<lparr> dropHover := False, fieldFull := False \<rparr>"
  show ?thesis
  proof (cases "over (playRect lay) x y \<and> \<not> MAX_FIELD \<le> length (playedCards s)")
    case True
    with assms(1) ps have "playedCards s' = playedCards s @ [?c]"
      by (auto simp: endDrag_def Let_def bindE_def)
    with True show ?thesis by simp
  next
    case False
    define placed where "placed = (case nextSibling (PlaceholderEl p) ?s1 of
         Some n \<Rightarrow> insertBefore HandC (SlotEl ?c) n (detach (PlaceholderEl p) ?s1)
       | None \<Rightarrow> Inr (appendChild HandC (SlotEl ?c) (detach (PlaceholderEl p) ?s1)))"
    have pl: "playedCards s3 = playedCards s" if "placed = Inr s3" for s3
      using that insertBefore_frame(2) [of HandC "SlotEl ?c" _ "detach (PlaceholderEl p) ?s1" s3]
      by (auto simp: placed_def split: option.splits)
    from assms(1) ps False obtain s3 where "placed = Inr s3"
      and "playedCards s' = playedCards s3"
      by (auto simp: endDrag_def Let_def bindE_def placed_def [symmetric]
          split: sum.splits)
    with pl assms(2) show ?thesis by simp
  qed
qed

lemma reset_click_played: "reset_click s = Inr s' \<Longrightarrow> playedCards s' = []"
  using reset_loop_cards [of s] by (auto simp: reset_click_def bindE_def)

lemma closeLightbox_played [simp]: "playedCards (closeLightbox s) = playedCards s"
  by (simp add: closeLightbox_def Let_def split: option.splits)

lemma handle_capacity:
  assumes "handle ev s = Inr s'" "length (playedCards s) \<le> MAX_FIELD"
  shows "length (playedCards s') \<le> MAX_FIELD"
proof (cases ev)
  case (PointerDown tg pid x y lay)
  with assms show ?thesis by auto
next
  case (PointerMove x y lay)
  with assms on_pointermove_frame(2) [of x y lay s s'] show ?thesis by simp
next
  case (PointerUp x y lay)
  with assms endDrag_capacity [of x y lay s s'] show ?thesis
    by (auto simp: on_pointerup_def split: option.splits if_splits)
next
  case ResetClick
  with assms reset_click_played [of s s'] show ?thesis by simp
next
  case ToggleClick
  with assms show ?thesis by (auto simp: toggle_click_def Let_def)
next
  case (LightboxClick b)
  with assms show ?thesis by (auto simp: lightbox_click_def)
qed

lemma deliver_capacity:
  assumes "deliver te s = Inr s'" "length (playedCards s) \<le> MAX_FIELD"
  shows "length (playedCards s') \<le> MAX_FIELD"
proof -
  from assms(1) obtain s1 where s1: "advance (fst te) s = Inr s1" "handle (snd te) s1 = Inr s'"
    by (auto simp: deliver_def bindE_def split: sum.splits)
  from advance_frame(2) [OF s1(1)] assms(2) have "length (playedCards s1) \<le> MAX_FIELD"
    by simp
  with s1(2) show ?thesis by (rule handle_capacity)
qed

lemma run_capacity:
  "run tes s = Inr s' \<Longrightarrow> length (playedCards s) \<le> MAX_FIELD \<Longrightarrow>
     length (playedCards s') \<le> MAX_FIELD"
proof (induction tes arbitrary: s)
  case Nil
  then show ?case by simp
next
  case (Cons te tes)
  from Cons.prems(1) obtain s1 where s1: "deliver te s = Inr s1" "run tes s1 = Inr s'"
    by (auto simp: bindE_def split: sum.splits)
  from deliver_capacity [OF s1(1) Cons.prems(2)] Cons.IH [OF s1(2)] show ?case by simp
qed

section \<open>Card creation and idle timers\<close>

lemma createCard_eq:
  "createCard i n s =
     Inr (nextCard s,
          (attached (InnerEl (nextCard s))
             (s\<lparr> nextCard := Suc (nextCard s),
                 prop_i := (prop_i s)(nextCard s := i), prop_n := (prop_n s)(nextCard s := n) \<rparr>))
          \<lparr> holoEffect := (holoEffect s)(nextCard s := nextRef s) \<rparr>)"
  by (simp add: createCard_def Let_def bindE_def)

lemma initHand_from_played:
  "initHand_from ks s = Inr s' \<Longrightarrow> playedCards s' = playedCards s"
proof (induction ks arbitrary: s)
  case Nil
  then show ?case by simp
next
  case (Cons k ks)
  from Cons.prems Cons.IH show ?case
    by (auto simp: createCard_eq bindE_def)
qed

lemma init_page_played: "init_page r = Inr s \<Longrightarrow> playedCards s = []"
  using initHand_from_played [of "[0 ..< CARD_COUNT]" "empty_page r" s]
  by (simp add: init_page_def initHand_def empty_page_def)

lemma advance_no_timers: "timers s = [] \<Longrightarrow> advance t s = Inr (s\<lparr> now := max t (now s) \<rparr>)"
  by (simp add: advance_def due_timers_def bindE_def)

lemma in_drag_now [simp]: "in_drag (s\<lparr> now := n \<rparr>) c p = in_drag s c p"
  by (auto simp: in_drag_def wf_page_def tidy_def indexed_def rest_dom_def drag_dom_def
      split: option.splits)

section \<open>Hold and tap\<close>

lemma find_slot: "c \<in> set cs \<Longrightarrow> find (\<lambda>k. k = c) cs = Some c"
  by (induction cs) auto

lemma on_pointerdown_eq:
  assumes "closest_hand_slot tg s = Some (SlotEl c)" "c \<in> set (cards s)"
  shows "on_pointerdown tg pid x y lay s =
     s\<lparr> timers := timers s @ [(nextTimer s, now s + HOLD_DELAY)],
        nextTimer := Suc (nextTimer s),
        pointerState := Some \<lparr> card_ref = c, pointerId = pid, startX = x, startY = y,
          offsetX = x - r_left (slotRect lay c), offsetY = y - r_top (slotRect lay c),
          isDragging = False, holdTimer = nextTimer s, placeholder = None,
          originalIndex = indexOf (cards s) c \<rparr> \<rparr>"
  using assms by (simp add: on_pointerdown_def setTimeout_def Let_def find_slot)

lemma fire_idle:
  assumes "pointerState s = None"
  shows "fire tid s = Inr (s\<lparr> timers := filter (\<lambda>tm. fst tm \<noteq> tid) (timers s) \<rparr>)"
proof (cases "tid \<in> set (map fst (timers s))")
  case True
  with assms show ?thesis by (simp add: fire_def hold_callback_def)
next
  case False
  then have "filter (\<lambda>tm. fst tm \<noteq> tid) (timers s) = timers s"
    by (auto simp: filter_id_conv)
  with False show ?thesis by (simp add: fire_def)
qed

lemma fire_all_idle:
  "pointerState s = None \<Longrightarrow>
     fire_all tids s = Inr (s\<lparr> timers := filter (\<lambda>tm. fst tm \<notin> set tids) (timers s) \<rparr>)"
proof (induction tids arbitrary: s)
  case Nil
  then show ?case by simp
next
  case (Cons tid tids)
  let ?s1 = "s\<lparr> timers := filter (\<lambda>tm. fst tm \<noteq> tid) (timers s) \<rparr>"
  have "pointerState ?s1 = None" using Cons.prems by simp
  from Cons.IH [OF this] fire_idle [OF Cons.prems, of tid] show ?case
    by (simp add: bindE_def conj_commute)
qed

lemma advance_idle:
  "pointerState s = None \<Longrightarrow>
     advance t s = Inr (s\<lparr> timers := filter (\<lambda>tm. fst tm \<notin> set (due_timers t s)) (timers s),
                          now := max t (now s) \<rparr>)"
  by (simp add: advance_def fire_all_idle bindE_def)

lemma fire_pending:
  assumes "pointerState s = Some ps" "\<not> isDragging ps" "tid \<in> set (map fst (timers s))"
  shows "fire tid s =
     openLightbox (cleanupPointer True (s\<lparr> timers := filter (\<lambda>tm. fst tm \<noteq> tid) (timers s) \<rparr>))"
  using assms by (simp add: fire_def hold_callback_def)

lemma due_timers_armed: "set (due_timers t s) \<subseteq> set (map fst (timers s))"
  by (auto simp: due_timers_def)

lemma due_timers_mem:
  "(tid, due) \<in> set (timers s) \<Longrightarrow> due \<le> t \<Longrightarrow> tid \<in> set (due_timers t s)"
  by (force simp: due_timers_def)


lemma cleanupPointer_steps_last: "cleanupPointer b s = last (s # cleanupPointer_steps b s)"
  by (simp add: cleanupPointer_def cleanupPointer_steps_def Let_def split: option.splits)

lemma openLightbox_steps_last: "openLightbox s = Inr (last (openLightbox_steps s))"
  by (simp add: openLightbox_eq openLightbox_steps_def Let_def)

lemma last_cons_append: "ys \<noteq> [] \<Longrightarrow> last (x # xs @ ys) = last ys"
  by simp

lemma hold_callback_steps_last: "hold_callback s = Inr (last (s # hold_callback_steps s))"
proof (cases "pointerState s")
  case None
  then show ?thesis
    by (simp add: hold_callback_def hold_callback_steps_def)
next
  case (Some ps)
  have ne: "openLightbox_steps q \<noteq> []" for q
    by (simp add: openLightbox_steps_def Let_def)
  show ?thesis
  proof (cases "isDragging ps")
    case True
    with Some show ?thesis
      by (simp add: hold_callback_def hold_callback_steps_def)
  next
    case False
    let ?A = "cleanupPointer_steps True s"
    let ?B = "openLightbox_steps (last (s # ?A))"
    have l: "last (s # ?A @ ?B) = last ?B"
      by (rule last_cons_append [OF ne])
    have r: "hold_callback s = Inr (last ?B)"
      using Some False
      by (simp add: hold_callback_def openLightbox_steps_last cleanupPointer_steps_last
          del: last.simps)
    have "hold_callback_steps s = ?A @ ?B"
      using Some False by (simp add: hold_callback_steps_def Let_def del: last.simps)
    with l r show ?thesis
      by (simp del: last.simps)
  qed
qed

lemma fire_steps_last: "fire tid s = Inr (last (s # fire_steps tid s))"
  by (simp add: fire_def fire_steps_def Let_def hold_callback_steps_last)

lemma fire_all_steps_last: "fire_all tids s = Inr (last (s # fire_all_steps tids s))"
proof (induction tids arbitrary: s)
  case Nil
  then show ?case by simp
next
  case (Cons tid tids)
  show ?case
    by (simp add: fire_steps_last [of tid s] Cons.IH bindE_def)
qed

lemma advance_steps_last:
  "advance t s =
     Inr ((last (s # advance_steps t s))\<lparr> now := max t (now (last (s # advance_steps t s))) \<rparr>)"
  by (simp add: advance_def advance_steps_def fire_all_steps_last bindE_def del: last.simps)

lemma fire_all_steps_idle:
  "pointerState s = None \<Longrightarrow> z \<in> set (fire_all_steps tids s) \<Longrightarrow> \<exists>ts. z = s\<lparr> timers := ts \<rparr>"
proof (induction tids arbitrary: s)
  case Nil
  then show ?case by simp
next
  case (Cons tid tids)
  let ?s1 = "s\<lparr> timers := filter (\<lambda>tm. fst tm \<noteq> tid) (timers s) \<rparr>"
  have p1: "pointerState ?s1 = None"
    using Cons.prems(1) by simp
  have hs: "hold_callback_steps ?s1 = []"
    using p1 by (simp add: hold_callback_steps_def)
  from Cons.prems(2) fire_idle [OF Cons.prems(1), of tid]
  have "z = ?s1 \<or> z \<in> set (fire_all_steps tids ?s1)"
    by (auto simp: fire_steps_def Let_def hs split: if_splits)
  then show ?case
  proof
    assume "z = ?s1"
    then show ?thesis by blast
  next
    assume "z \<in> set (fire_all_steps tids ?s1)"
    from Cons.IH [OF p1 this] obtain ts where "z = ?s1\<lparr> timers := ts \<rparr>" ..
    then have "z = s\<lparr> timers := ts \<rparr>" by simp
    then show ?thesis ..
  qed
qed

text \<open>
  Claim C4. After a pointer-down on a hand card, if the next thing that happens is that
  the clock passes the hold delay (no move and no pointer-up before), then the due
  timeouts pass through these states, in this order: \<open>start\<close>, in which the hold
  callback starts, the session still being there and the lightbox as it was;
  \<open>cancelled\<close>, after \<open>clearTimeout\<close> on the session's timer (\<open>nextTimer s\<close> is the
  id the pointer-down got from \<open>setTimeout\<close>); \<open>mid\<close>, after the session is set to
  null, the lightbox still being as it was and no instance constructed; \<open>active\<close>,
  after the lightbox got its class; \<open>opened\<close>, after the instance is constructed on the
  lightbox card. So the session is cleared before the preview is activated. The preview
  is activated once: the states that follow in the same turn, and every later passing
  of time, construct no other instance and leave the lightbox as \<open>opened\<close> has it.
\<close>

theorem hold_opens_preview:
  assumes "closest_hand_slot tg s = Some (SlotEl c)" and "c \<in> set (cards s)"
    and "now s + HOLD_DELAY \<le> t"
  shows "\<exists>start cancelled mid active opened later s2.
     advance t (on_pointerdown tg pid x y lay s) = Inr s2 \<and>
     advance_steps t (on_pointerdown tg pid x y lay s) =
       [start, cancelled, mid, active, opened] @ later \<and>
     pointerState start = pointerState (on_pointerdown tg pid x y lay s) \<and>
     pointerState start \<noteq> None \<and>
     lightboxActive start = lightboxActive s \<and> lightboxEffect start = lightboxEffect s \<and>
     nextRef start = nextRef s \<and> listeners start = listeners s \<and>
     cancelled = clearTimeout (nextTimer s) start \<and>
     mid = cancelled\<lparr> pointerState := None \<rparr> \<and>
     pointerState mid = None \<and> nextTimer s \<notin> fst ` set (timers mid) \<and>
     lightboxActive mid = lightboxActive s \<and> lightboxEffect mid = lightboxEffect s \<and>
     nextRef mid = nextRef s \<and> listeners mid = listeners s \<and>
     active = mid\<lparr> lightboxActive := True \<rparr> \<and>
     openLightbox mid = Inr opened \<and>
     (\<forall>z \<in> set later. pointerState z = None \<and> lightboxActive z \<and>
        lightboxEffect z = lightboxEffect opened \<and> nextRef z = nextRef opened \<and>
        listeners z = listeners opened) \<and>
     s2 = opened\<lparr> timers := timers s2, now := now s2 \<rparr> \<and>
     lightboxActive s2 \<and> pointerState s2 = None \<and> nextTimer s \<notin> fst ` set (timers s2) \<and>
     lightboxEffect s2 = Some (nextRef s) \<and> nextRef s2 = Suc (nextRef s) \<and>
     listeners s2 LightboxCardEl = listeners s LightboxCardEl @ [nextRef s] \<and>
     (\<forall>t'. \<exists>s3. advance t' s2 = Inr s3 \<and> nextRef s3 = nextRef s2 \<and>
        lightboxEffect s3 = lightboxEffect s2 \<and> listeners s3 = listeners s2)"
proof -
  let ?tid = "nextTimer s"
  let ?ps = "\<lparr> card_ref = c, pointerId = pid, startX = x, startY = y,
          offsetX = x - r_left (slotRect lay c), offsetY = y - r_top (slotRect lay c),
          isDragging = False, holdTimer = ?tid, placeholder = None,
          originalIndex = indexOf (cards s) c \<rparr>"
  define s1 where "s1 = on_pointerdown tg pid x y lay s"
  have s1_eq: "s1 = s\<lparr> timers := timers s @ [(?tid, now s + HOLD_DELAY)],
        nextTimer := Suc ?tid, pointerState := Some ?ps \<rparr>"
    unfolding s1_def using assms(1,2) by (rule on_pointerdown_eq)
  have ps1: "pointerState s1 = Some ?ps" by (simp add: s1_eq)
  have "(?tid, now s + HOLD_DELAY) \<in> set (timers s1)" by (simp add: s1_eq)
  from due_timers_mem [OF this assms(3)] obtain tid0 rest where
    due: "due_timers t s1 = tid0 # rest"
    by (cases "due_timers t s1") auto
  have armed: "tid0 \<in> set (map fst (timers s1))"
    using due_timers_armed [of t s1] due by auto
  define a1 where "a1 = s1\<lparr> timers := filter (\<lambda>tm. fst tm \<noteq> tid0) (timers s1) \<rparr>"
  define cancelled where "cancelled = clearTimeout ?tid a1"
  define mid where "mid = cancelled\<lparr> pointerState := None \<rparr>"
  define active where "active = mid\<lparr> lightboxActive := True \<rparr>"
  define opened where
    "opened = (attached LightboxCardEl active)\<lparr> lightboxEffect := Some (nextRef mid) \<rparr>"
  define later where "later = fire_all_steps rest opened"
  define s2 where "s2 = opened\<lparr> timers := filter (\<lambda>tm. fst tm \<notin> set rest) (timers opened),
      now := max t (now opened) \<rparr>"
  have pa: "pointerState a1 = Some ?ps"
    by (simp add: a1_def ps1)
  have mid_eq: "mid = cleanupPointer True a1"
    by (simp add: mid_def cancelled_def cleanupPointer_def pa)
  have fire0: "fire tid0 s1 = openLightbox mid"
    unfolding mid_eq a1_def by (rule fire_pending [OF ps1 _ armed]) simp
  have opn: "openLightbox mid = Inr opened"
    by (simp add: openLightbox_eq opened_def active_def)
  have po: "pointerState opened = None"
    by (simp add: opened_def active_def mid_def)
  have run: "advance t s1 = Inr s2"
    by (simp add: advance_def due fire0 opn bindE_def fire_all_idle [OF po] s2_def)
  have hs: "hold_callback_steps a1 = [cancelled, mid, active, opened]"
    by (simp add: hold_callback_steps_def pa cleanupPointer_steps_def openLightbox_steps_def
        Let_def cancelled_def mid_def active_def opened_def)
  have fs: "fire_steps tid0 s1 = a1 # hold_callback_steps a1"
    using armed by (simp add: fire_steps_def a1_def Let_def)
  have steps: "advance_steps t s1 = [a1, cancelled, mid, active, opened] @ later"
    by (simp add: advance_steps_def due fs hs fire0 opn later_def)
  have st: "pointerState a1 = pointerState s1" "pointerState a1 \<noteq> None"
    "lightboxActive a1 = lightboxActive s" "lightboxEffect a1 = lightboxEffect s"
    "nextRef a1 = nextRef s" "listeners a1 = listeners s"
    by (simp_all add: a1_def s1_eq)
  have m1: "pointerState mid = None" "nextTimer s \<notin> fst ` set (timers mid)"
    "lightboxActive mid = lightboxActive s" "lightboxEffect mid = lightboxEffect s"
    "nextRef mid = nextRef s" "listeners mid = listeners s"
    by (auto simp: mid_def cancelled_def clearTimeout_def a1_def s1_eq)
  have lt: "\<forall>z \<in> set later. pointerState z = None \<and> lightboxActive z \<and>
        lightboxEffect z = lightboxEffect opened \<and> nextRef z = nextRef opened \<and>
        listeners z = listeners opened"
  proof
    fix z
    assume "z \<in> set later"
    then obtain ts where "z = opened\<lparr> timers := ts \<rparr>"
      unfolding later_def using fire_all_steps_idle [OF po] by blast
    then show "pointerState z = None \<and> lightboxActive z \<and>
        lightboxEffect z = lightboxEffect opened \<and> nextRef z = nextRef opened \<and>
        listeners z = listeners opened"
      by (simp add: opened_def active_def mid_def)
  qed
  have t2: "nextTimer s \<notin> fst ` set (timers s2)"
    using m1(2) by (auto simp: s2_def opened_def active_def)
  have f2: "lightboxActive s2" "pointerState s2 = None" "lightboxEffect s2 = Some (nextRef s)"
    "nextRef s2 = Suc (nextRef s)"
    "listeners s2 LightboxCardEl = listeners s LightboxCardEl @ [nextRef s]"
    by (simp_all add: s2_def opened_def active_def m1)
  have s2o: "s2 = opened\<lparr> timers := timers s2, now := now s2 \<rparr>"
    by (simp add: s2_def)
  have later: "\<exists>s3. advance t' s2 = Inr s3 \<and> nextRef s3 = nextRef s2 \<and>
        lightboxEffect s3 = lightboxEffect s2 \<and> listeners s3 = listeners s2" for t'
    by (simp add: advance_idle [OF f2(2)])
  have "advance t s1 = Inr s2 \<and>
     advance_steps t s1 = [a1, cancelled, mid, active, opened] @ later \<and>
     pointerState a1 = pointerState s1 \<and> pointerState a1 \<noteq> None \<and>
     lightboxActive a1 = lightboxActive s \<and> lightboxEffect a1 = lightboxEffect s \<and>
     nextRef a1 = nextRef s \<and> listeners a1 = listeners s \<and>
     cancelled = clearTimeout (nextTimer s) a1 \<and>
     mid = cancelled\<lparr> pointerState := None \<rparr> \<and>
     pointerState mid = None \<and> nextTimer s \<notin> fst ` set (timers mid) \<and>
     lightboxActive mid = lightboxActive s \<and> lightboxEffect mid = lightboxEffect s \<and>
     nextRef mid = nextRef s \<and> listeners mid = listeners s \<and>
     active = mid\<lparr> lightboxActive := True \<rparr> \<and>
     openLightbox mid = Inr opened \<and>
     (\<forall>z \<in> set later. pointerState z = None \<and> lightboxActive z \<and>
        lightboxEffect z = lightboxEffect opened \<and> nextRef z = nextRef opened \<and>
        listeners z = listeners opened) \<and>
     s2 = opened\<lparr> timers := timers s2, now := now s2 \<rparr> \<and>
     lightboxActive s2 \<and> pointerState s2 = None \<and> nextTimer s \<notin> fst ` set (timers s2) \<and>
     lightboxEffect s2 = Some (nextRef s) \<and> nextRef s2 = Suc (nextRef s) \<and>
     listeners s2 LightboxCardEl = listeners s LightboxCardEl @ [nextRef s] \<and>
     (\<forall>t'. \<exists>s3. advance t' s2 = Inr s3 \<and> nextRef s3 = nextRef s2 \<and>
        lightboxEffect s3 = lightboxEffect s2 \<and> listeners s3 = listeners s2)"
    using run steps st m1 opn lt s2o f2 t2 later
    by (simp add: cancelled_def mid_def active_def)
  then show ?thesis
    unfolding s1_def by blast
qed

theorem hold_opens_preview_witness:
  "closest_hand_slot (Some (SlotEl 2)) sample_hand = Some (SlotEl 2) \<and>
   2 \<in> set (cards sample_hand) \<and> now sample_hand + HOLD_DELAY \<le> 400 \<and>
   \<not> lightboxActive sample_hand \<and>
   5 \<le> length (advance_steps 400 (on_pointerdown (Some (SlotEl 2)) 1 250 560 sample_layout sample_hand)) \<and>
   (\<exists>s2. advance 400 (on_pointerdown (Some (SlotEl 2)) 1 250 560 sample_layout sample_hand) = Inr s2 \<and>
      lightboxActive s2 \<and> pointerState s2 = None \<and> lightboxEffect s2 = Some 6 \<and> nextRef s2 = 7)"
proof -
  have a: "closest_hand_slot (Some (SlotEl 2)) sample_hand = Some (SlotEl 2)"
    and b: "2 \<in> set (cards sample_hand)"
    and c: "now sample_hand + HOLD_DELAY \<le> 400"
    and d: "\<not> lightboxActive sample_hand" "nextRef sample_hand = 6"
    by (simp_all add: closest_hand_slot_def sample_hand_def empty_page_def HOLD_DELAY_def)
  from hold_opens_preview [OF a b c, of 1 250 560 sample_layout] obtain later s2 where
    "advance 400 (on_pointerdown (Some (SlotEl 2)) 1 250 560 sample_layout sample_hand) = Inr s2"
    "length (advance_steps 400 (on_pointerdown (Some (SlotEl 2)) 1 250 560 sample_layout sample_hand)) =
       5 + length (later :: page list)"
    "lightboxActive s2" "pointerState s2 = None" "lightboxEffect s2 = Some (nextRef sample_hand)"
    "nextRef s2 = Suc (nextRef sample_hand)"
    by fastforce
  with a b c d show ?thesis
    by simp
qed


lemma same_collections_refl [simp]: "same_collections s s"
  by (simp add: same_collections_def)

lemma same_collections_trans:
  "same_collections a b \<Longrightarrow> same_collections b c \<Longrightarrow> same_collections a c"
  by (simp add: same_collections_def)

lemma fire_quiet:
  assumes "quiet x0 y0 s"
  shows "\<exists>s'. fire tid s = Inr s' \<and> quiet x0 y0 s' \<and> same_collections s s'"
proof (cases "pointerState s")
  case None
  with assms show ?thesis
    by (simp add: fire_idle quiet_def same_collections_def)
next
  case (Some ps)
  with assms have nd: "\<not> isDragging ps" by (simp add: quiet_def)
  show ?thesis
  proof (cases "tid \<in> set (map fst (timers s))")
    case True
    from fire_pending [OF Some nd True] show ?thesis
      by (simp add: openLightbox_eq quiet_def same_collections_def)
  next
    case False
    with assms show ?thesis by (simp add: fire_def)
  qed
qed

lemma fire_all_quiet:
  "quiet x0 y0 s \<Longrightarrow> \<exists>s'. fire_all tids s = Inr s' \<and> quiet x0 y0 s' \<and> same_collections s s'"
proof (induction tids arbitrary: s)
  case Nil
  then show ?case by simp
next
  case (Cons tid tids)
  from fire_quiet [OF Cons.prems, of tid] obtain s1 where
    s1: "fire tid s = Inr s1" "quiet x0 y0 s1" "same_collections s s1"
    by blast
  from Cons.IH [OF s1(2)] obtain s' where
    "fire_all tids s1 = Inr s'" "quiet x0 y0 s'" "same_collections s1 s'"
    by blast
  with s1 show ?case
    by (auto simp: bindE_def intro: same_collections_trans)
qed

lemma advance_quiet:
  assumes "quiet x0 y0 s"
  shows "\<exists>s'. advance t s = Inr s' \<and> quiet x0 y0 s' \<and> same_collections s s'"
proof -
  from fire_all_quiet [OF assms, of "due_timers t s"] obtain s1 where
    "fire_all (due_timers t s) s = Inr s1" "quiet x0 y0 s1" "same_collections s s1"
    by blast
  then show ?thesis
    by (simp add: advance_def bindE_def quiet_def same_collections_def)
qed

lemma move_quiet:
  assumes "quiet x0 y0 s" "within_threshold x0 y0 x y"
  shows "on_pointermove x y lay s = Inr s"
  using assms
  by (auto simp: on_pointermove_def quiet_def within_threshold_def Let_def bindE_def
      split: option.splits)

lemma up_quiet:
  assumes "quiet x0 y0 s"
  shows "\<exists>s'. on_pointerup x y lay s = Inr s' \<and> pointerState s' = None \<and> same_collections s s'"
  using assms
  by (auto simp: on_pointerup_def quiet_def same_collections_def split: option.splits)

lemma moves_quiet:
  "quiet x0 y0 s \<Longrightarrow> \<forall>m \<in> set moves. move_within x0 y0 m \<Longrightarrow>
     (\<And>s1. quiet x0 y0 s1 \<Longrightarrow> \<exists>s'. run rest s1 = Inr s' \<and> Q s' \<and> same_collections s1 s') \<Longrightarrow>
     \<exists>s'. run (map move_event moves @ rest) s = Inr s' \<and> Q s' \<and> same_collections s s'"
proof (induction moves arbitrary: s)
  case Nil
  then show ?case by simp
next
  case (Cons m moves)
  obtain t x y lay where m: "m = (t, x, y, lay)" by (cases m) auto
  from Cons.prems(2) have w: "within_threshold x0 y0 x y" and rest: "\<forall>m \<in> set moves. move_within x0 y0 m"
    by (simp_all add: m)
  from advance_quiet [OF Cons.prems(1), of t] obtain s1 where
    s1: "advance t s = Inr s1" "quiet x0 y0 s1" "same_collections s s1"
    by blast
  have d: "deliver (move_event m) s = Inr s1"
    by (simp add: m deliver_def s1(1) bindE_def move_quiet [OF s1(2) w])
  from Cons.IH [OF s1(2) rest Cons.prems(3)] obtain s' where
    "run (map move_event moves @ rest) s1 = Inr s'" "Q s'" "same_collections s1 s'"
    by blast
  with d s1(3) show ?case
    by (auto simp: bindE_def intro: same_collections_trans)
qed

lemma hold_callback_total: "\<exists>s'. hold_callback s = Inr s'"
  by (simp add: hold_callback_def openLightbox_eq split: option.splits)

lemma fire_total: "\<exists>s'. fire tid s = Inr s'"
  using hold_callback_total by (simp add: fire_def)

lemma fire_all_total: "\<exists>s'. fire_all tids s = Inr s'"
proof (induction tids arbitrary: s)
  case Nil
  then show ?case by simp
next
  case (Cons tid tids)
  from fire_total [of tid s] obtain s1 where "fire tid s = Inr s1" by blast
  with Cons.IH [of s1] show ?case by (simp add: bindE_def)
qed

lemma advance_total: "\<exists>s'. advance t s = Inr s'"
proof -
  from fire_all_total [of "due_timers t s" s] obtain s1 where
    "fire_all (due_timers t s) s = Inr s1" by blast
  then show ?thesis by (simp add: advance_def bindE_def)
qed

text \<open>
  Claim C5. A pointer-down on a hand card, any number of pointer-moves that stay within
  the drag threshold of the start point, and a pointer-up leave \<open>cards\<close>, \<open>playedCards\<close>
  and the children of the hand and of the table as they were, and end the session. This
  holds whatever the time stamps are: the hold timeout, if it runs, opens the lightbox
  and touches none of these.
\<close>

theorem tap_is_noop:
  assumes "closest_hand_slot tg s = Some (SlotEl c)" and "c \<in> set (cards s)"
    and "\<forall>m \<in> set moves. move_within x0 y0 m"
  shows "\<exists>s'. run ((t0, PointerDown tg pid x0 y0 lay0) # map move_event moves @
                 [(tu, PointerUp xu yu layu)]) s = Inr s' \<and>
     cards s' = cards s \<and> playedCards s' = playedCards s \<and>
     handChildren s' = handChildren s \<and> playChildren s' = playChildren s \<and>
     pointerState s' = None"
proof -
  from advance_total [of t0 s] obtain a where a: "advance t0 s = Inr a"
    by blast
  note ac = advance_frame [OF a]
  let ?s1 = "on_pointerdown tg pid x0 y0 lay0 a"
  have cl: "closest_hand_slot tg a = Some (SlotEl c)"
    using assms(1) ac(3)
    by (auto simp: closest_hand_slot_def split: option.splits elem.splits if_splits)
  have ca: "c \<in> set (cards a)" using assms(2) by (simp add: ac)
  have q: "quiet x0 y0 ?s1"
    by (simp add: on_pointerdown_eq [OF cl ca] quiet_def)
  have d: "deliver (t0, PointerDown tg pid x0 y0 lay0) s = Inr ?s1"
    by (simp add: deliver_def a bindE_def)
  have sc: "same_collections s ?s1"
    by (simp add: same_collections_def ac)
  have last: "\<exists>s'. run [(tu, PointerUp xu yu layu)] z = Inr s' \<and> pointerState s' = None \<and> same_collections z s'"
    if "quiet x0 y0 z" for z
  proof -
    from advance_quiet [OF that, of tu] obtain z1 where
      z1: "advance tu z = Inr z1" "quiet x0 y0 z1" "same_collections z z1"
      by blast
    from up_quiet [OF z1(2), of xu yu layu] obtain s' where
      "on_pointerup xu yu layu z1 = Inr s'" "pointerState s' = None" "same_collections z1 s'"
      by blast
    with z1 show ?thesis
      by (auto simp: deliver_def bindE_def intro: same_collections_trans)
  qed
  from moves_quiet [of x0 y0 ?s1 moves "[(tu, PointerUp xu yu layu)]" "\<lambda>s'. pointerState s' = None",
      OF q assms(3) last]
  obtain s' where "run (map move_event moves @ [(tu, PointerUp xu yu layu)]) ?s1 = Inr s'"
    "pointerState s' = None" "same_collections ?s1 s'"
    by blast
  with d sc show ?thesis
    by (auto simp: bindE_def same_collections_def)
qed

theorem tap_is_noop_witness:
  "closest_hand_slot (Some (SlotEl 2)) sample_hand = Some (SlotEl 2) \<and>
   2 \<in> set (cards sample_hand) \<and>
   move_within 250 560 (20, 253, 564, sample_layout) \<and>
   (\<exists>s'. run [(0, PointerDown (Some (SlotEl 2)) 1 250 560 sample_layout),
              (20, PointerMove 253 564 sample_layout),
              (90, PointerUp 253 564 sample_layout)] sample_hand = Inr s' \<and>
      cards s' = [0, 1, 2, 3, 4, 5] \<and> playedCards s' = [] \<and> pointerState s' = None)"
proof -
  have a: "closest_hand_slot (Some (SlotEl 2)) sample_hand = Some (SlotEl 2)"
    and b: "2 \<in> set (cards sample_hand)"
    and c: "cards sample_hand = [0, 1, 2, 3, 4, 5]" "playedCards sample_hand = []"
    by (simp_all add: closest_hand_slot_def sample_hand_def empty_page_def)
  have "sqrt (3 * 3 + 4 * 4) = (5 :: real)"
    by (rule real_sqrt_unique) simp_all
  then have w: "move_within 250 560 (20, 253, 564, sample_layout)"
    by (simp add: within_threshold_def DRAG_THRESHOLD_def)
  then have m: "\<forall>m \<in> set [(20 :: nat, 253 :: real, 564 :: real, sample_layout)]. move_within 250 560 m"
    by simp
  from tap_is_noop [OF a b m, of 0 1 sample_layout 90 253 564 sample_layout] a b w show ?thesis
    by (auto simp: c)
qed

section \<open>Well-formed pages\<close>

lemma wf_page_mono:
  assumes "wf_page s"
    and "cards s' = cards s" "playedCards s' = playedCards s" "pointerState s' = pointerState s"
    and "handChildren s' = handChildren s" "playChildren s' = playChildren s"
    and "bodyChildren s' = bodyChildren s"
    and "prop_i s' = prop_i s" "prop_n s' = prop_n s" "holoEffect s' = holoEffect s"
    and "nextRef s \<le> nextRef s'"
  shows "wf_page s'"
proof -
  have t: "tidy s'"
    using assms unfolding wf_page_def tidy_def indexed_def
    by (auto simp del: distinct_append intro: less_le_trans)
  have r: "rest_dom s' = rest_dom s" "drag_dom s' c p = drag_dom s c p" for c p
    using assms by (simp_all add: rest_dom_def drag_dom_def)
  from assms(1) t show ?thesis
    unfolding wf_page_def r assms(2,4) by simp
qed

lemma wf_page_rest:
  assumes "wf_page s"
    and "case pointerState s of None \<Rightarrow> True | Some ps \<Rightarrow> \<not> isDragging ps"
  shows "rest_dom s"
  using assms by (auto simp: wf_page_def split: option.splits)

lemma wf_page_cleanup:
  assumes "wf_page s"
    and "case pointerState s of None \<Rightarrow> True | Some ps \<Rightarrow> \<not> isDragging ps"
  shows "wf_page (cleanupPointer b s)"
proof -
  have "rest_dom s" using assms by (rule wf_page_rest)
  then have "rest_dom (cleanupPointer b s)" by (simp add: rest_dom_def)
  moreover have "tidy (cleanupPointer b s)"
    using assms(1) by (simp add: wf_page_def tidy_def indexed_def)
  ultimately show ?thesis by (simp add: wf_page_def)
qed

lemma hold_callback_wf:
  assumes "wf_page s"
  shows "\<exists>s'. hold_callback s = Inr s' \<and> wf_page s' \<and>
     (case pointerState s of
        Some ps \<Rightarrow> if isDragging ps then pointerState s' = pointerState s else pointerState s' = None
      | None \<Rightarrow> pointerState s' = None)"
proof (cases "pointerState s")
  case None
  with assms show ?thesis by (simp add: hold_callback_def)
next
  case (Some ps)
  show ?thesis
  proof (cases "isDragging ps")
    case True
    with Some assms show ?thesis by (simp add: hold_callback_def)
  next
    case False
    let ?m = "cleanupPointer True s"
    let ?o = "(attached LightboxCardEl (?m\<lparr> lightboxActive := True \<rparr>))\<lparr> lightboxEffect := Some (nextRef ?m) \<rparr>"
    have "wf_page ?m"
      using assms Some False by (intro wf_page_cleanup) simp_all
    then have "wf_page ?o"
      by (rule wf_page_mono) simp_all
    with Some False show ?thesis
      by (simp add: hold_callback_def openLightbox_eq)
  qed
qed

lemma wf_page_timers:
  "wf_page (s\<lparr> timers := ts \<rparr>) = wf_page s"
  by (auto simp: wf_page_def tidy_def indexed_def rest_dom_def drag_dom_def split: option.splits)

lemma wf_page_now:
  "wf_page (s\<lparr> now := n \<rparr>) = wf_page s"
  by (auto simp: wf_page_def tidy_def indexed_def rest_dom_def drag_dom_def split: option.splits)

lemma fire_wf:
  assumes "wf_page s"
  shows "\<exists>s'. fire tid s = Inr s' \<and> wf_page s' \<and> dragging s' = dragging s"
proof (cases "tid \<in> set (map fst (timers s))")
  case True
  let ?s1 = "s\<lparr> timers := filter (\<lambda>tm. fst tm \<noteq> tid) (timers s) \<rparr>"
  have "wf_page ?s1" using assms by (simp add: wf_page_timers)
  from hold_callback_wf [OF this] obtain s' where
    "hold_callback ?s1 = Inr s'" "wf_page s'"
    "case pointerState ?s1 of
        Some ps \<Rightarrow> if isDragging ps then pointerState s' = pointerState ?s1 else pointerState s' = None
      | None \<Rightarrow> pointerState s' = None"
    by blast
  with True show ?thesis
    by (auto simp: fire_def dragging_def split: option.splits if_splits)
next
  case False
  with assms show ?thesis by (simp add: fire_def)
qed

lemma fire_all_wf:
  "wf_page s \<Longrightarrow> \<exists>s'. fire_all tids s = Inr s' \<and> wf_page s' \<and> dragging s' = dragging s"
proof (induction tids arbitrary: s)
  case Nil
  then show ?case by simp
next
  case (Cons tid tids)
  from fire_wf [OF Cons.prems, of tid] obtain s1 where
    s1: "fire tid s = Inr s1" "wf_page s1" "dragging s1 = dragging s"
    by blast
  from Cons.IH [OF s1(2)] s1 show ?case
    by (auto simp: bindE_def)
qed

lemma advance_wf:
  assumes "wf_page s"
  shows "\<exists>s'. advance t s = Inr s' \<and> wf_page s' \<and> dragging s' = dragging s"
proof -
  from fire_all_wf [OF assms, of "due_timers t s"] obtain s1 where
    "fire_all (due_timers t s) s = Inr s1" "wf_page s1" "dragging s1 = dragging s"
    by blast
  then show ?thesis
    by (simp add: advance_def bindE_def wf_page_now dragging_def)
qed


lemma pendingD:
  assumes "pending s c"
  obtains ps where "pointerState s = Some ps" "\<not> isDragging ps" "card_ref ps = c"
    "placeholder ps = None" "tidy s" "c \<in> set (cards s)" "rest_dom s"
  using assms by (auto simp: pending_def wf_page_def split: option.splits if_splits)

lemma startDrag_wf:
  assumes "pending s c"
  shows "\<exists>s'. startDrag s = Inr s' \<and> in_drag s' c (nextPlaceholder s)"
proof -
  from assms obtain ps where ps: "pointerState s = Some ps" "\<not> isDragging ps" "card_ref ps = c"
    "placeholder ps = None" and tidy: "tidy s" and cin: "c \<in> set (cards s)" and rest: "rest_dom s"
    by (rule pendingD)
  from tidy have dc: "distinct (cards s)"
    and disj: "set (cards s) \<inter> set (playedCards s) = {}"
    and play: "playChildren s = map SlotEl (playedCards s)"
    by (simp_all add: tidy_def)
  from rest have hand: "handChildren s = map SlotEl (cards s)" and body: "bodyChildren s = []"
    by (simp_all add: rest_dom_def)
  from cin obtain a b where ab: "cards s = a @ c # b"
    by (meson split_list)
  with dc have ca: "c \<notin> set a" and cb: "c \<notin> set b" and dab: "distinct (a @ b)"
    by auto
  have cnp: "c \<notin> set (playedCards s)" using cin disj by blast
  let ?p = "nextPlaceholder s"
  let ?P = "PlaceholderEl ?p"
  define s' where "s' = (destroy (holoEffect s c) (s\<lparr> pointerState := Some (ps\<lparr> isDragging := True \<rparr>) \<rparr>))\<lparr>
      nextPlaceholder := Suc ?p,
      pointerState := Some (ps\<lparr> isDragging := True, placeholder := Some ?p \<rparr>),
      handChildren := map SlotEl a @ ?P # map SlotEl b,
      playChildren := map SlotEl (playedCards s),
      bodyChildren := [SlotEl c] \<rparr>"
  have ib: "insert_before ?P (SlotEl c) (map SlotEl a @ SlotEl c # map SlotEl b) =
      map SlotEl a @ ?P # SlotEl c # map SlotEl b"
    by (rule insert_before_split) (use ca in auto)
  have ra: "removeAll c a = a" "removeAll c b = b"
    using ca cb by simp_all
  have rp: "removeAll c (playedCards s) = playedCards s"
    using cnp by simp
  have run: "startDrag s = Inr s'"
    by (simp add: startDrag_def ps Let_def bindE_def parentNode_def insertBefore_def
        detach_def appendChild_def hand play body ab removeAll_placeholder_slots
        removeAll_map_SlotEl ib ra rp s'_def)
  have f: "cards s' = cards s" "playedCards s' = playedCards s" "playChildren s' = playChildren s"
    "prop_i s' = prop_i s" "prop_n s' = prop_n s" "holoEffect s' = holoEffect s"
    "nextRef s' = nextRef s"
    by (simp_all add: s'_def play)
  have tidy': "tidy s'"
    using tidy by (simp add: tidy_def indexed_def f)
  have "distinct (map SlotEl a @ ?P # map SlotEl b)"
    using dab by (auto simp: distinct_map inj_on_def)
  then have dom: "drag_dom s' c ?p"
    by (simp add: drag_dom_def s'_def ab ra removeAll_placeholder_slots)
  have "in_drag s' c ?p"
    using tidy' dom cin ps(3) by (simp add: in_drag_def wf_page_def f) (simp add: s'_def)
  with run show ?thesis by blast
qed

lemma updateDrag_wf:
  assumes "in_drag s c p"
  shows "\<exists>s'. updateDrag x y lay s = Inr s' \<and> in_drag s' c p"
proof (cases "over (playRect lay) x y \<or> \<not> overHand (handRect lay) x y")
  case True
  from updateDrag_away [OF assms True] assms show ?thesis by simp
next
  case False
  then have off: "\<not> over (playRect lay) x y" and on: "overHand (handRect lay) x y"
    by simp_all
  from updateDrag_hand [OF assms off on] obtain ks1 ks2 where
    ks: "ks1 @ ks2 = removeAll c (cards s)" and
    run: "updateDrag x y lay s =
       Inr (s\<lparr> dropHover := False, fieldFull := False,
                handChildren := map SlotEl ks1 @ PlaceholderEl p # map SlotEl ks2 \<rparr>)"
    by blast
  have "in_drag (s\<lparr> dropHover := False, fieldFull := False \<rparr>) c p"
    using assms by simp
  from in_drag_hand [OF this, of ks1 ks2] ks run show ?thesis by simp
qed

lemma in_drag_wf: "in_drag s c p \<Longrightarrow> wf_page s"
  by (simp add: in_drag_def)

lemma wf_cases:
  assumes "wf_page s"
  obtains (idle) "pointerState s = None"
  | (pend) c where "pending s c"
  | (drag) c p where "in_drag s c p"
proof (cases "pointerState s")
  case None
  then show ?thesis by (rule idle)
next
  case (Some ps)
  show ?thesis
  proof (cases "isDragging ps")
    case True
    with assms Some obtain p where "placeholder ps = Some p"
      by (auto simp: wf_page_def split: option.splits)
    with assms Some True have "in_drag s (card_ref ps) p"
      by (simp add: in_drag_def)
    then show ?thesis by (rule drag)
  next
    case False
    with assms Some have "pending s (card_ref ps)"
      by (simp add: pending_def)
    then show ?thesis by (rule pend)
  qed
qed

lemma on_pointermove_wf:
  assumes "wf_page s"
  shows "\<exists>s'. on_pointermove x y lay s = Inr s' \<and> wf_page s'"
  using assms
proof (cases rule: wf_cases)
  case idle
  with assms show ?thesis by (simp add: on_pointermove_def)
next
  case (drag c p)
  from updateDrag_wf [OF drag, of x y lay] show ?thesis
    by (auto simp: on_pointermove_drag [OF drag] dest: in_drag_wf)
next
  case (pend c)
  from pend obtain ps where ps: "pointerState s = Some ps" "\<not> isDragging ps"
    by (rule pendingD)
  let ?far = "sqrt ((x - startX ps) * (x - startX ps) + (y - startY ps) * (y - startY ps)) > DRAG_THRESHOLD"
  show ?thesis
  proof (cases ?far)
    case False
    with ps assms show ?thesis
      by (simp add: on_pointermove_def Let_def bindE_def)
  next
    case True
    let ?s0 = "clearTimeout (holdTimer ps) s"
    have "wf_page ?s0"
      using assms by (simp add: clearTimeout_def wf_page_timers)
    then have "pending ?s0 c"
      using pend by (simp add: pending_def)
    from startDrag_wf [OF this] obtain s1 where
      s1: "startDrag ?s0 = Inr s1" "in_drag s1 c (nextPlaceholder ?s0)"
      by blast
    from updateDrag_wf [OF s1(2), of x y lay] obtain s' where
      s': "updateDrag x y lay s1 = Inr s'" "in_drag s' c (nextPlaceholder ?s0)"
      by blast
    from s1(2) obtain ps1 where "pointerState s1 = Some ps1" "isDragging ps1"
      by (rule in_dragD)
    with ps True s1(1) s' show ?thesis
      by (auto simp: on_pointermove_def Let_def bindE_def dest: in_drag_wf)
  qed
qed

lemma on_pointerup_wf:
  assumes "wf_page s"
  shows "\<exists>s'. on_pointerup x y lay s = Inr s' \<and> wf_page s'"
  using assms
proof (cases rule: wf_cases)
  case idle
  with assms show ?thesis by (simp add: on_pointerup_def)
next
  case (pend c)
  from pend obtain ps where ps: "pointerState s = Some ps" "\<not> isDragging ps"
    by (rule pendingD)
  have "wf_page (cleanupPointer True s)"
    using assms ps by (intro wf_page_cleanup) simp_all
  with ps show ?thesis by (simp add: on_pointerup_def)
next
  case (drag c p)
  show ?thesis
  proof (cases "over (playRect lay) x y \<and> length (playedCards s) < MAX_FIELD")
    case True
    with endDrag_drop [OF drag, of lay x y] show ?thesis
      by (auto simp: on_pointerup_drag [OF drag])
  next
    case False
    then have ret: "\<not> over (playRect lay) x y \<or> MAX_FIELD \<le> length (playedCards s)"
      by auto
    from drag have "drag_dom s c p" by (auto elim: in_dragD)
    then obtain ks1 ks2 where "handChildren s = map SlotEl ks1 @ PlaceholderEl p # map SlotEl ks2"
      by (rule drag_dom_split)
    from endDrag_return [OF drag ret this] show ?thesis
      by (auto simp: on_pointerup_drag [OF drag])
  qed
qed

lemma on_pointerdown_wf:
  assumes "wf_page s" "\<not> dragging s"
  shows "wf_page (on_pointerdown tg pid x y lay s)"
proof (cases "closest_hand_slot tg s")
  case None
  with assms show ?thesis by (simp add: on_pointerdown_def)
next
  case (Some slot)
  show ?thesis
  proof (cases "find (\<lambda>c. SlotEl c = slot) (cards s)")
    case None
    with Some assms show ?thesis by (simp add: on_pointerdown_def)
  next
    case (Some c)
    then have cin: "c \<in> set (cards s)"
      by (auto simp: find_Some_iff)
    have rest: "rest_dom s"
      using assms by (intro wf_page_rest) (auto simp: dragging_def split: option.splits)
    have "tidy s" using assms(1) by (simp add: wf_page_def)
    then have "tidy (on_pointerdown tg pid x y lay s)"
      by (simp add: tidy_def indexed_def)
    moreover have "rest_dom (on_pointerdown tg pid x y lay s)"
      using rest by (simp add: rest_dom_def)
    ultimately show ?thesis
      using Some \<open>closest_hand_slot tg s = Some slot\<close> cin
      by (simp add: wf_page_def) (simp add: on_pointerdown_def setTimeout_def Let_def)
  qed
qed

section \<open>Well-formedness is kept by every handler\<close>

lemma wf_core_iff:
  "wf_core s \<longleftrightarrow>
     distinct (cards s) \<and> distinct (playedCards s) \<and>
     set (cards s) \<inter> set (playedCards s) = {} \<and>
     playChildren s = map SlotEl (playedCards s) \<and>
     length (playedCards s) \<le> MAX_FIELD \<and>
     (\<forall>c \<in> set (cards s) \<union> set (playedCards s). holoEffect s c < nextRef s) \<and>
     (case pointerState s of
        None \<Rightarrow> rest_dom s
      | Some ps \<Rightarrow> card_ref ps \<in> set (cards s) \<and>
          (if isDragging ps
           then (case placeholder ps of None \<Rightarrow> False | Some p \<Rightarrow> drag_dom s (card_ref ps) p)
           else placeholder ps = None \<and> rest_dom s))"
proof -
  have r: "rest_dom (reindexHand s) = rest_dom s"
    "drag_dom (reindexHand s) c p = drag_dom s c p" for c p
    by (simp_all add: rest_dom_def drag_dom_def)
  have i: "distinct (cards s) \<Longrightarrow> indexed (reindexHand s)"
    by (rule reindexHand_indexed)
  show ?thesis
    unfolding wf_core_def wf_page_def tidy_def r
    using i by (auto simp del: distinct_append split: option.splits)
qed

lemma wf_page_core: "wf_page s \<Longrightarrow> wf_core s"
  by (simp add: wf_core_def reindexHand_idem wf_page_def tidy_def)

lemma removeAll_last: "distinct xs \<Longrightarrow> xs \<noteq> [] \<Longrightarrow> removeAll (last xs) xs = butlast xs"
  by (cases xs rule: rev_cases) simp_all

lemma reset_step_core:
  assumes "wf_core s" "playedCards s \<noteq> []"
  shows "wf_core (reset_step s)"
proof -
  let ?c = "last (playedCards s)"
  let ?t = "reset_step s"
  from assms(1) have dc: "distinct (cards s)" and dp: "distinct (playedCards s)"
    and disj: "set (cards s) \<inter> set (playedCards s) = {}"
    and play: "playChildren s = map SlotEl (playedCards s)"
    and cap: "length (playedCards s) \<le> MAX_FIELD"
    and alloc: "\<forall>c \<in> set (cards s) \<union> set (playedCards s). holoEffect s c < nextRef s"
    and sess: "case pointerState s of
        None \<Rightarrow> rest_dom s
      | Some ps \<Rightarrow> card_ref ps \<in> set (cards s) \<and>
          (if isDragging ps
           then (case placeholder ps of None \<Rightarrow> False | Some p \<Rightarrow> drag_dom s (card_ref ps) p)
           else placeholder ps = None \<and> rest_dom s)"
    by (simp_all add: wf_core_iff)
  have cp: "?c \<in> set (playedCards s)" using assms(2) by simp
  have cnc: "?c \<notin> set (cards s)" using cp disj by blast
  have cnb: "?c \<notin> set (butlast (playedCards s))"
    using dp assms(2) by (cases "playedCards s" rule: rev_cases) simp_all
  have rl: "removeAll ?c (playedCards s) = butlast (playedCards s)"
    using dp assms(2) by (rule removeAll_last)
  have rest': "rest_dom ?t" if "rest_dom s"
    using that cnc by (simp add: rest_dom_def reset_step_fields removeAll_map_SlotEl)
  have drag': "drag_dom ?t d p" if "drag_dom s d p" "d \<in> set (cards s)" for d p
  proof -
    from that(1) have dh: "distinct (handChildren s)"
      and ph: "PlaceholderEl p \<in> set (handChildren s)"
      and rem: "removeAll (PlaceholderEl p) (handChildren s) = map SlotEl (removeAll d (cards s))"
      and body: "bodyChildren s = [SlotEl d]"
      by (simp_all add: drag_dom_def)
    have "SlotEl ?c \<notin> set (removeAll (PlaceholderEl p) (handChildren s))"
      using cnc by (auto simp: rem)
    then have nh: "SlotEl ?c \<notin> set (handChildren s)" by simp
    have ne: "?c \<noteq> d" using that(2) cnc by auto
    have rd: "removeAll d (cards s @ [?c]) = removeAll d (cards s) @ [?c]"
      using ne by simp
    show ?thesis
      using dh ph nh ne
      by (simp add: drag_dom_def reset_step_fields body rem rd)
  qed
  have sess': "case pointerState ?t of
        None \<Rightarrow> rest_dom ?t
      | Some ps \<Rightarrow> card_ref ps \<in> set (cards ?t) \<and>
          (if isDragging ps
           then (case placeholder ps of None \<Rightarrow> False | Some p \<Rightarrow> drag_dom ?t (card_ref ps) p)
           else placeholder ps = None \<and> rest_dom ?t)"
    using sess rest' drag'
    by (auto simp: reset_step_fields split: option.splits if_splits)
  have "distinct (cards ?t)" "distinct (playedCards ?t)"
    "set (cards ?t) \<inter> set (playedCards ?t) = {}"
    "playChildren ?t = map SlotEl (playedCards ?t)"
    "length (playedCards ?t) \<le> MAX_FIELD"
    "\<forall>c \<in> set (cards ?t) \<union> set (playedCards ?t). holoEffect ?t c < nextRef ?t"
    using dc dp disj cap alloc cnc cnb
    by (auto simp: reset_step_fields play removeAll_map_SlotEl rl distinct_butlast
        dest: in_set_butlastD less_SucI)
  with sess' show ?thesis
    unfolding wf_core_iff by blast
qed

lemma reset_loop_core:
  "wf_core s \<Longrightarrow> \<exists>s'. reset_loop s = Inr s' \<and> wf_core s'"
proof (induction s rule: reset_induct)
  case (step s)
  show ?case
  proof (cases "playedCards s = []")
    case True
    with step.prems show ?thesis by (simp add: reset_loop_unfold)
  next
    case False
    from step.IH [OF False reset_step_core [OF step.prems False]] False show ?thesis
      by (simp add: reset_loop_unfold [of s])
  qed
qed

lemma reset_click_wf:
  assumes "wf_page s"
  shows "\<exists>s'. reset_click s = Inr s' \<and> wf_page s'"
proof -
  from reset_loop_core [OF wf_page_core [OF assms]] obtain s1 where
    "reset_loop s = Inr s1" "wf_core s1"
    by blast
  then show ?thesis
    by (simp add: reset_click_def bindE_def wf_core_def)
qed

lemma toggle_click_wf: "wf_page s \<Longrightarrow> wf_page (toggle_click s)"
  by (erule wf_page_mono) (simp_all add: toggle_click_def Let_def)

lemma lightbox_click_wf: "wf_page s \<Longrightarrow> wf_page (lightbox_click b s)"
  by (erule wf_page_mono)
    (simp_all add: lightbox_click_def closeLightbox_def Let_def split: option.splits)

lemma handle_wf:
  assumes "wf_page s" "single_pointer ev s"
  shows "\<exists>s'. handle ev s = Inr s' \<and> wf_page s'"
proof (cases ev)
  case (PointerDown tg pid x y lay)
  with assms on_pointerdown_wf [of s tg pid x y lay] show ?thesis by simp
next
  case (PointerMove x y lay)
  with on_pointermove_wf [OF assms(1), of x y lay] show ?thesis by simp
next
  case (PointerUp x y lay)
  with on_pointerup_wf [OF assms(1), of x y lay] show ?thesis by simp
next
  case ResetClick
  with reset_click_wf [OF assms(1)] show ?thesis by simp
next
  case ToggleClick
  with toggle_click_wf [OF assms(1)] show ?thesis by simp
next
  case (LightboxClick b)
  with lightbox_click_wf [OF assms(1), of b] show ?thesis by simp
qed

lemma single_pointer_dragging:
  "dragging s' = dragging s \<Longrightarrow> single_pointer ev s' = single_pointer ev s"
  by (cases ev) simp_all

lemma deliver_wf:
  assumes "wf_page s" "single_pointer (snd te) s"
  shows "\<exists>s'. deliver te s = Inr s' \<and> wf_page s'"
proof -
  from advance_wf [OF assms(1), of "fst te"] obtain s1 where
    s1: "advance (fst te) s = Inr s1" "wf_page s1" "dragging s1 = dragging s"
    by blast
  have "single_pointer (snd te) s1"
    using assms(2) single_pointer_dragging [OF s1(3)] by simp
  from handle_wf [OF s1(2) this] s1(1) show ?thesis
    by (simp add: deliver_def bindE_def)
qed

lemma run_wf:
  "wf_page s \<Longrightarrow> single_pointer_run tes s \<Longrightarrow> \<exists>s'. run tes s = Inr s' \<and> wf_page s'"
proof (induction tes arbitrary: s)
  case Nil
  then show ?case by simp
next
  case (Cons te tes)
  from Cons.prems(2) have sp: "single_pointer (snd te) s" by simp
  from deliver_wf [OF Cons.prems(1) sp] obtain s1 where
    s1: "deliver te s = Inr s1" "wf_page s1"
    by blast
  with Cons.prems(2) have "single_pointer_run tes s1" by simp
  from Cons.IH [OF s1(2) this] s1(1) show ?case
    by (simp add: bindE_def)
qed


lemma initHand_from_upt:
  assumes "cards s = [0 ..< k]" "nextCard s = k" "handChildren s = map SlotEl [0 ..< k]"
    "playedCards s = []" "playChildren s = []" "bodyChildren s = []" "pointerState s = None"
    "\<forall>c < k. prop_i s c = c \<and> prop_n s c = CARD_COUNT \<and> holoEffect s c < nextRef s"
  shows "\<exists>s'. initHand_from [k ..< k + m] s = Inr s' \<and>
     cards s' = [0 ..< k + m] \<and> nextCard s' = k + m \<and>
     handChildren s' = map SlotEl [0 ..< k + m] \<and>
     playedCards s' = [] \<and> playChildren s' = [] \<and> bodyChildren s' = [] \<and>
     pointerState s' = None \<and>
     (\<forall>c < k + m. prop_i s' c = c \<and> prop_n s' c = CARD_COUNT \<and> holoEffect s' c < nextRef s')"
  using assms
proof (induction m arbitrary: k s)
  case 0
  then show ?case by simp
next
  case (Suc m)
  let ?s1 = "s\<lparr> nextCard := Suc k,
      prop_i := (prop_i s)(k := k), prop_n := (prop_n s)(k := CARD_COUNT) \<rparr>"
  let ?s2 = "(attached (InnerEl k) ?s1)\<lparr> holoEffect := (holoEffect s)(k := nextRef s) \<rparr>"
  let ?s3 = "appendChild HandC (SlotEl k) (?s2\<lparr> cards := cards ?s2 @ [k] \<rparr>)"
  have cc: "createCard k CARD_COUNT s = Inr (k, ?s2)"
    by (simp add: createCard_eq Suc.prems(2))
  have upt: "[k ..< k + Suc m] = k # [Suc k ..< Suc k + m]"
    by (simp add: upt_rec)
  have step: "initHand_from [k ..< k + Suc m] s = initHand_from [Suc k ..< Suc k + m] ?s3"
    unfolding upt by (simp add: cc bindE_def)
  have rm: "removeAll (SlotEl k) (map SlotEl [0 ..< k]) = map SlotEl [0 ..< k]"
    by (simp add: removeAll_map_SlotEl)
  have p3: "cards ?s3 = [0 ..< Suc k]" "nextCard ?s3 = Suc k"
    "handChildren ?s3 = map SlotEl [0 ..< Suc k]"
    "playedCards ?s3 = []" "playChildren ?s3 = []" "bodyChildren ?s3 = []"
    "pointerState ?s3 = None"
    using Suc.prems by (simp_all add: rm)
  have q3: "\<forall>c < Suc k. prop_i ?s3 c = c \<and> prop_n ?s3 c = CARD_COUNT \<and> holoEffect ?s3 c < nextRef ?s3"
    using Suc.prems(8) by (auto simp: less_Suc_eq)
  from Suc.IH [OF p3 q3] show ?case
    unfolding step by simp
qed

lemma map_upt_id: "\<forall>c < n. f c = c \<Longrightarrow> map f [0 ..< n] = [0 ..< n]"
  by (rule nth_equalityI) simp_all

lemma init_page_wf:
  "\<exists>s. init_page r = Inr s \<and> wf_page s \<and> pointerState s = None \<and>
       cards s = [0 ..< CARD_COUNT] \<and> playedCards s = [] \<and> indexed s"
proof -
  let ?e = "empty_page r"
  have "\<exists>s'. initHand_from [0 ..< 0 + CARD_COUNT] ?e = Inr s' \<and>
     cards s' = [0 ..< 0 + CARD_COUNT] \<and> nextCard s' = 0 + CARD_COUNT \<and>
     handChildren s' = map SlotEl [0 ..< 0 + CARD_COUNT] \<and>
     playedCards s' = [] \<and> playChildren s' = [] \<and> bodyChildren s' = [] \<and>
     pointerState s' = None \<and>
     (\<forall>c < 0 + CARD_COUNT. prop_i s' c = c \<and> prop_n s' c = CARD_COUNT \<and> holoEffect s' c < nextRef s')"
    by (rule initHand_from_upt) (simp_all add: empty_page_def)
  then obtain s where run: "initHand_from [0 ..< CARD_COUNT] ?e = Inr s"
    and f: "cards s = [0 ..< CARD_COUNT]" "handChildren s = map SlotEl [0 ..< CARD_COUNT]"
      "playedCards s = []" "playChildren s = []" "bodyChildren s = []" "pointerState s = None"
    and q: "\<forall>c < CARD_COUNT. prop_i s c = c \<and> prop_n s c = CARD_COUNT \<and> holoEffect s c < nextRef s"
    by auto
  have idx: "indexed s"
    using q by (simp add: indexed_def f map_upt_id)
  have "tidy s"
    using q idx by (simp add: tidy_def f)
  then have "wf_page s"
    by (simp add: wf_page_def rest_dom_def f)
  with run f idx show ?thesis
    by (auto simp: init_page_def initHand_def)
qed

text \<open>
  From the page at load time, under single-pointer input, no handler and no timeout
  throws, and every state reached is well formed: the hypotheses of the drag and reset
  theorems above are those of the states the page is really in.
\<close>

theorem single_pointer_runs_stay_well_formed:
  assumes "init_page r = Inr s0" and "single_pointer_run tes s0"
  shows "\<exists>s. run tes s0 = Inr s \<and> wf_page s"
proof -
  from init_page_wf [of r] assms(1) have "wf_page s0" by auto
  then show ?thesis using assms(2) by (rule run_wf)
qed

lemma drag_begins:
  assumes "wf_page s" "pointerState s = None"
    and "closest_hand_slot tg s = Some (SlotEl c)" "c \<in> set (cards s)"
    and "\<not> within_threshold x0 y0 x y"
  shows "\<exists>s'. on_pointermove x y lay (on_pointerdown tg pid x0 y0 lay0 s) = Inr s' \<and>
     in_drag s' c (nextPlaceholder s)"
proof -
  let ?s1 = "on_pointerdown tg pid x0 y0 lay0 s"
  let ?ps = "\<lparr> card_ref = c, pointerId = pid, startX = x0, startY = y0,
          offsetX = x0 - r_left (slotRect lay0 c), offsetY = y0 - r_top (slotRect lay0 c),
          isDragging = False, holdTimer = nextTimer s, placeholder = None,
          originalIndex = indexOf (cards s) c \<rparr>"
  have s1: "?s1 = s\<lparr> timers := timers s @ [(nextTimer s, now s + HOLD_DELAY)],
        nextTimer := Suc (nextTimer s), pointerState := Some ?ps \<rparr>"
    using assms(3,4) by (rule on_pointerdown_eq)
  have wf1: "wf_page ?s1"
    using assms(1,2) by (intro on_pointerdown_wf) (simp_all add: dragging_def)
  have ps1: "pointerState ?s1 = Some ?ps" by (simp add: s1)
  let ?s0 = "clearTimeout (nextTimer s) ?s1"
  have "wf_page ?s0"
    using wf1 by (simp add: clearTimeout_def wf_page_timers)
  then have "pending ?s0 c"
    by (simp add: pending_def ps1)
  from startDrag_wf [OF this] obtain s2 where
    s2: "startDrag ?s0 = Inr s2" "in_drag s2 c (nextPlaceholder ?s0)"
    by blast
  from updateDrag_wf [OF s2(2), of x y lay] obtain s' where
    s': "updateDrag x y lay s2 = Inr s'" "in_drag s' c (nextPlaceholder ?s0)"
    by blast
  from s2(2) obtain ps2 where p2: "pointerState s2 = Some ps2" "isDragging ps2"
    by (rule in_dragD)
  have np: "nextPlaceholder ?s0 = nextPlaceholder s"
    by (simp add: s1)
  have "on_pointermove x y lay ?s1 = Inr s'"
    using assms(5) s2(1) s'(1) p2
    by (simp add: on_pointermove_def ps1 Let_def bindE_def within_threshold_def)
  with s'(2) np show ?thesis by simp
qed

section \<open>The sample pages are reached\<close>

lemma opts_default: "merge_opts no_opts = DEFAULTS"
  by (simp add: merge_opts_def no_opts_def orElse_def merge_opacity_def)

lemma attached_loaded:
  "attached (InnerEl k) (s :: page) =
     s\<lparr> heap := (heap s)(nextRef s := sample_obj k\<lparr> el := InnerEl k \<rparr>),
        nextRef := Suc (nextRef s),
        listeners := (listeners s)(InnerEl k := listeners s (InnerEl k) @ [nextRef s]),
        overlays := (overlays s)(InnerEl k := overlays s (InnerEl k) @
           [(nextRef s, HoloColor), (nextRef s, HoloShimmer), (nextRef s, HoloGlare)]),
        transform := (transform s)(InnerEl k := Some (1000, 0, 0)) \<rparr>"
  if "\<not> prefersReducedMotion s"
  using that
  by (simp add: attached_def HolographicEffect_new_def Let_def new_obj_def opts_default DEFAULTS_def
      holo_setup_def makeLayer_def upd_obj_def bindEvents_def render_def sample_obj_def)

lemma loaded_step:
  "appendChild HandC (SlotEl k)
     (((attached (InnerEl k)
         ((loaded_upto k)\<lparr> nextCard := Suc k,
            prop_i := (prop_i (loaded_upto k))(k := k),
            prop_n := (prop_n (loaded_upto k))(k := CARD_COUNT) \<rparr>))
       \<lparr> holoEffect := (holoEffect (loaded_upto k))(k := nextRef (loaded_upto k)) \<rparr>)
      \<lparr> cards := [0 ..< k] @ [k] \<rparr>) = loaded_upto (Suc k)"
proof -
  have r: "\<not> prefersReducedMotion ((loaded_upto k)\<lparr> nextCard := Suc k,
            prop_i := (prop_i (loaded_upto k))(k := k),
            prop_n := (prop_n (loaded_upto k))(k := CARD_COUNT) \<rparr>)"
    by (simp add: loaded_upto_def empty_page_def)
  show ?thesis
    unfolding attached_loaded [OF r]
    by (auto simp: loaded_upto_def empty_page_def appendChild_def detach_def Let_def
        removeAll_map_SlotEl fun_eq_iff less_Suc_eq CARD_COUNT_def sample_obj_def new_obj_def
        split: elem.splits)
qed


lemma loaded_run:
  "initHand_from [k ..< k + m] (loaded_upto k) = Inr (loaded_upto (k + m))"
proof (induction m arbitrary: k)
  case 0
  then show ?case by simp
next
  case (Suc m)
  have upt: "[k ..< k + Suc m] = k # [Suc k ..< Suc k + m]"
    by (simp add: upt_rec)
  have c: "cards (loaded_upto k) = [0 ..< k]" "nextCard (loaded_upto k) = k"
    "holoEffect (loaded_upto k) = (\<lambda>c. if c < k then c else 0)"
    by (simp_all add: loaded_upto_def)
  have "initHand_from [k ..< k + Suc m] (loaded_upto k) =
      initHand_from [Suc k ..< Suc k + m] (loaded_upto (Suc k))"
    unfolding upt loaded_step [of k, symmetric]
    by (simp add: createCard_eq bindE_def c)
  with Suc.IH [of "Suc k"] show ?case by simp
qed

lemma case_elem_const: "(\<lambda>e. case e of InnerEl c \<Rightarrow> v | _ \<Rightarrow> v) = (\<lambda>e. v)"
  by (rule ext) (simp split: elem.splits)

lemma loaded_zero: "loaded_upto 0 = empty_page False"
  by (simp add: loaded_upto_def empty_page_def case_elem_const)

lemma sample_hand_loaded: "init_page False = Inr sample_hand"
proof -
  have "sample_hand = loaded_upto 6"
    by (auto simp: sample_hand_def loaded_upto_def upt_rec fun_eq_iff split: elem.splits)
  moreover have "init_page False = Inr (loaded_upto (0 + CARD_COUNT))"
    using loaded_run [of 0 CARD_COUNT] by (simp add: init_page_def initHand_def loaded_zero)
  ultimately show ?thesis by (simp add: CARD_COUNT_def)
qed


lemma sample_drag_reached:
  "run [(0, PointerDown (Some (SlotEl 2)) 1 250 560 sample_layout),
        (10, PointerMove 250 480 sample_layout)] sample_hand = Inr sample_drag"
proof -
  let ?s1 = "on_pointerdown (Some (SlotEl 2)) 1 250 560 sample_layout sample_hand"
  have a: "closest_hand_slot (Some (SlotEl 2)) sample_hand = Some (SlotEl 2)"
    and b: "2 \<in> set (cards sample_hand)"
    and t0: "timers sample_hand = []" and n0: "now sample_hand = 0"
    by (simp_all add: closest_hand_slot_def sample_hand_def empty_page_def)
  have adv0: "advance 0 sample_hand = Inr sample_hand"
    using advance_no_timers [OF t0, of 0] n0 by simp
  have d1: "deliver (0, PointerDown (Some (SlotEl 2)) 1 250 560 sample_layout) sample_hand = Inr ?s1"
    by (simp add: deliver_def adv0 bindE_def)
  note s1 = on_pointerdown_eq [OF a b, of 1 250 560 sample_layout]
  have adv1: "advance 10 ?s1 = Inr (?s1\<lparr> now := 10 \<rparr>)"
    by (simp add: s1 advance_def due_timers_def t0 n0 HOLD_DELAY_def bindE_def)
  have far: "sqrt ((250 - 250) * (250 - 250) + (480 - 560) * (480 - 560)) > (DRAG_THRESHOLD :: real)"
  proof -
    have "sqrt (80 * 80) = (80 :: real)" by (rule real_sqrt_unique) simp_all
    then show ?thesis by (simp add: DRAG_THRESHOLD_def)
  qed
  have mv: "on_pointermove 250 480 sample_layout (?s1\<lparr> now := 10 \<rparr>) = Inr sample_drag"
    using far
    apply (simp add: s1 on_pointermove_def Let_def bindE_def)
    apply (simp add: startDrag_def Let_def bindE_def parentNode_def insertBefore_def detach_def
        appendChild_def clearTimeout_def sample_hand_def empty_page_def)
    apply (simp add: updateDrag_def Let_def over_def overHand_def sample_layout_def r_right_def
        r_bottom_def insertBefore_def detach_def sample_drag_def sample_hand_def empty_page_def
        sample_session_def destroy_def upd_obj_def sample_obj_def new_obj_def indexOf.simps
        fun_eq_iff)
    done
  have d2: "deliver (10, PointerMove 250 480 sample_layout) ?s1 = Inr sample_drag"
    by (simp add: deliver_def adv1 mv bindE_def)
  show ?thesis
    by (simp add: d1 d2 bindE_def)
qed

section \<open>Filling the table\<close>

lemma run_append: "run (xs @ ys) s = bindE (run xs s) (run ys)"
  by (induction xs arbitrary: s) (auto simp: bindE_def split: sum.splits)

lemma insertBefore_timers: "insertBefore q new ref s = Inr s' \<Longrightarrow> timers s' = timers s"
  by (cases q; auto simp: insertBefore_def Let_def split: if_splits)

lemma startDrag_timers: "startDrag s = Inr s' \<Longrightarrow> timers s' = timers s"
  by (auto simp: startDrag_def Let_def bindE_def dest: insertBefore_timers
      split: option.splits sum.splits)

lemma updateDrag_timers: "updateDrag x y lay s = Inr s' \<Longrightarrow> timers s' = timers s"
  by (auto simp: updateDrag_def Let_def dest: insertBefore_timers
      split: option.splits if_splits)

lemma pick_up:
  assumes wf: "wf_page s" and idle: "pointerState s = None" and tm: "timers s = []"
    and cin: "c \<in> set (cards s)"
  shows "\<exists>s2. run [(t, PointerDown (Some (SlotEl c)) 1 0 0 sample_layout),
                   (t, PointerMove 300 300 sample_layout)] s = Inr s2 \<and>
     in_drag s2 c (nextPlaceholder s) \<and> timers s2 = [] \<and>
     cards s2 = cards s \<and> playedCards s2 = playedCards s"
proof -
  let ?lay = sample_layout
  let ?a = "s\<lparr> now := max t (now s) \<rparr>"
  have adv0: "advance t s = Inr ?a"
    using tm by (rule advance_no_timers)
  have wfa: "wf_page ?a" using wf by (simp add: wf_page_now)
  have ida: "pointerState ?a = None" using idle by simp
  have "rest_dom ?a" using wfa ida by (simp add: wf_page_def)
  then have cl: "closest_hand_slot (Some (SlotEl c)) ?a = Some (SlotEl c)"
    using cin by (simp add: closest_hand_slot_def rest_dom_def)
  have ca: "c \<in> set (cards ?a)" using cin by simp
  let ?s1 = "on_pointerdown (Some (SlotEl c)) 1 0 0 ?lay ?a"
  note s1 = on_pointerdown_eq [OF cl ca, of 1 0 0 ?lay]
  have d1: "deliver (t, PointerDown (Some (SlotEl c)) 1 0 0 ?lay) s = Inr ?s1"
    by (simp add: deliver_def adv0 bindE_def)
  have tm1: "timers ?s1 = [(nextTimer ?a, now ?a + HOLD_DELAY)]"
    by (simp add: s1 tm)
  have n1: "now ?s1 = max t (now s)"
    by (simp add: s1)
  have due: "due_timers t ?s1 = []"
    unfolding due_timers_def tm1 by (simp add: HOLD_DELAY_def)
  have same: "?s1\<lparr> now := max t (now ?s1) \<rparr> = ?s1"
    unfolding n1 by (simp add: s1)
  have adv1: "advance t ?s1 = Inr ?s1"
    unfolding advance_def due by (simp add: bindE_def same)
  have far: "\<not> within_threshold 0 0 300 300"
  proof -
    have "(8 :: real) < sqrt (300 * 300 + 300 * 300)"
      by (rule real_less_rsqrt) simp
    then show ?thesis by (simp add: within_threshold_def DRAG_THRESHOLD_def)
  qed
  have "\<exists>s2. on_pointermove 300 300 ?lay ?s1 = Inr s2 \<and> in_drag s2 c (nextPlaceholder ?a)"
    by (rule drag_begins [OF wfa ida cl ca far])
  then obtain s2 where
    mv: "on_pointermove 300 300 ?lay ?s1 = Inr s2" and drag: "in_drag s2 c (nextPlaceholder ?a)"
    by blast
  have f2: "cards s2 = cards s" "playedCards s2 = playedCards s"
    using on_pointermove_frame [OF mv] by simp_all
  have t2: "timers s2 = []"
    using mv far
    by (auto simp: on_pointermove_def s1 Let_def bindE_def within_threshold_def tm
        dest!: startDrag_timers updateDrag_timers split: sum.splits option.splits if_splits)
  have d2: "deliver (t, PointerMove 300 300 ?lay) ?s1 = Inr s2"
    by (simp add: deliver_def adv1 mv bindE_def)
  have "run [(t, PointerDown (Some (SlotEl c)) 1 0 0 ?lay), (t, PointerMove 300 300 ?lay)] s = Inr s2"
    by (simp add: d1 d2 bindE_def)
  with drag f2 t2 show ?thesis by simp
qed

lemma play_card:
  assumes wf: "wf_page s" and idle: "pointerState s = None" and tm: "timers s = []"
    and cin: "c \<in> set (cards s)" and room: "length (playedCards s) < MAX_FIELD"
  shows "\<exists>s'. run (play_events t c) s = Inr s' \<and> wf_page s' \<and> pointerState s' = None \<and>
     timers s' = [] \<and> cards s' = removeAll c (cards s) \<and> playedCards s' = playedCards s @ [c]"
proof -
  let ?lay = sample_layout
  from pick_up [OF wf idle tm cin, of t] obtain s2 where
    up: "run [(t, PointerDown (Some (SlotEl c)) 1 0 0 ?lay), (t, PointerMove 300 300 ?lay)] s = Inr s2"
    and drag: "in_drag s2 c (nextPlaceholder s)" and t2: "timers s2 = []"
    and f2: "cards s2 = cards s" "playedCards s2 = playedCards s"
    by blast
  let ?b = "s2\<lparr> now := max t (now s2) \<rparr>"
  have adv2: "advance t s2 = Inr ?b"
    using t2 by (rule advance_no_timers)
  have dragb: "in_drag ?b c (nextPlaceholder s)" using drag by simp
  have ov: "over (playRect ?lay) 300 300"
    by (simp add: over_def sample_layout_def r_right_def r_bottom_def)
  have roomb: "length (playedCards ?b) < MAX_FIELD" using room by (simp add: f2)
  from endDrag_drop [OF dragb ov roomb] obtain s' where
    s': "endDrag 300 300 ?lay ?b = Inr s'" "cards s' = removeAll c (cards ?b)"
    "playedCards s' = playedCards ?b @ [c]" "pointerState s' = None"
    "timers s' = timers ?b" "wf_page s'"
    by blast
  have d3: "deliver (t, PointerUp 300 300 ?lay) s2 = Inr s'"
    by (simp add: deliver_def adv2 bindE_def on_pointerup_drag [OF dragb] s'(1))
  have "play_events t c =
      [(t, PointerDown (Some (SlotEl c)) 1 0 0 ?lay), (t, PointerMove 300 300 ?lay)] @
      [(t, PointerUp 300 300 ?lay)]"
    by (simp add: play_events_def)
  then have "run (play_events t c) s = Inr s'"
    by (simp only: run_append up) (simp add: bindE_def d3)
  with s' show ?thesis
    by (simp add: f2 t2)
qed

lemma table_fills:
  "\<exists>s. run (play_events 0 3 @ play_events 0 4 @ play_events 0 5) sample_hand = Inr s \<and>
       wf_page s \<and> pointerState s = None \<and> timers s = [] \<and>
       cards s = [0, 1, 2] \<and> playedCards s = [3, 4, 5]"
proof -
  have h: "pointerState sample_hand = None" "timers sample_hand = []"
    "cards sample_hand = [0, 1, 2, 3, 4, 5]" "playedCards sample_hand = []"
    by (simp_all add: sample_hand_def empty_page_def)
  from play_card [OF sample_hand_ok h(1,2), of 3 0] obtain s1 where
    s1: "run (play_events 0 3) sample_hand = Inr s1" "wf_page s1" "pointerState s1 = None"
    "timers s1 = []" "cards s1 = [0, 1, 2, 4, 5]" "playedCards s1 = [3]"
    by (auto simp: h MAX_FIELD_def)
  from play_card [OF s1(2,3,4), of 4 0] obtain s2 where
    s2: "run (play_events 0 4) s1 = Inr s2" "wf_page s2" "pointerState s2 = None"
    "timers s2 = []" "cards s2 = [0, 1, 2, 5]" "playedCards s2 = [3, 4]"
    by (auto simp: s1 MAX_FIELD_def)
  from play_card [OF s2(2,3,4), of 5 0] obtain s3 where
    s3: "run (play_events 0 5) s2 = Inr s3" "wf_page s3" "pointerState s3 = None"
    "timers s3 = []" "cards s3 = [0, 1, 2]" "playedCards s3 = [3, 4, 5]"
    by (auto simp: s2 MAX_FIELD_def)
  from s1(1) s2(1) s3 show ?thesis
    by (simp add: run_append bindE_def)
qed

text \<open>
  A drag over a full table is reached from the page at load time: after cards 3, 4 and 5
  have been played, card 2 is picked up.
\<close>

lemma full_table_drag_reached:
  "\<exists>p s q. init_page False = Inr p \<and>
     run ((play_events 0 3 @ play_events 0 4 @ play_events 0 5) @
          [(0, PointerDown (Some (SlotEl 2)) 1 0 0 sample_layout),
           (0, PointerMove 300 300 sample_layout)]) p = Inr s \<and>
     in_drag s 2 q \<and> length (playedCards s) = 3"
proof -
  from table_fills obtain s3 where
    s3: "run (play_events 0 3 @ play_events 0 4 @ play_events 0 5) sample_hand = Inr s3"
    "wf_page s3" "pointerState s3 = None" "timers s3 = []"
    "cards s3 = [0, 1, 2]" "playedCards s3 = [3, 4, 5]"
    by blast
  have "2 \<in> set (cards s3)" by (simp add: s3)
  from pick_up [OF s3(2,3,4) this, of 0] obtain s where
    "run [(0, PointerDown (Some (SlotEl 2)) 1 0 0 sample_layout),
          (0, PointerMove 300 300 sample_layout)] s3 = Inr s"
    "in_drag s 2 (nextPlaceholder s3)" "playedCards s = playedCards s3"
    by blast
  with s3(1,6) sample_hand_loaded show ?thesis
    by (simp only: run_append) (auto simp: bindE_def)
qed

section \<open>The capacity of the table\<close>

text \<open>
  Claim C3. \<open>MAX_FIELD\<close> is 3. No event takes a table of at most 3 cards to a table of
  more than 3, and no run of events from the page at load time does. The bound is
  reached: playing cards 3, 4 and 5 from the page at load time puts three cards on the
  table, so the README's limit of 2 is not what the code enforces.
\<close>

theorem table_capacity:
  "MAX_FIELD = 3 \<and>
   (length (playedCards s) \<le> 3 \<longrightarrow> deliver te s = Inr s' \<longrightarrow> length (playedCards s') \<le> 3) \<and>
   (init_page r = Inr s0 \<longrightarrow> run tes s0 = Inr s1 \<longrightarrow> length (playedCards s1) \<le> 3) \<and>
   (\<exists>p q. init_page False = Inr p \<and>
      run (play_events 0 3 @ play_events 0 4 @ play_events 0 5) p = Inr q \<and>
      length (playedCards q) = 3)"
proof (intro conjI impI)
  show m: "MAX_FIELD = 3" by (simp add: MAX_FIELD_def)
  show "length (playedCards s') \<le> 3"
    if "length (playedCards s) \<le> 3" "deliver te s = Inr s'"
    using deliver_capacity [OF that(2)] that(1) by (simp add: m)
  show "length (playedCards s1) \<le> 3"
    if "init_page r = Inr s0" "run tes s0 = Inr s1"
    using run_capacity [OF that(2)] init_page_played [OF that(1)] by (simp add: m)
  from table_fills obtain q where
    "run (play_events 0 3 @ play_events 0 4 @ play_events 0 5) sample_hand = Inr q"
    "playedCards q = [3, 4, 5]"
    by blast
  with sample_hand_loaded
  show "\<exists>p q. init_page False = Inr p \<and>
      run (play_events 0 3 @ play_events 0 4 @ play_events 0 5) p = Inr q \<and>
      length (playedCards q) = 3"
    by auto
qed

theorem table_capacity_witness:
  "length (playedCards sample_full_drag) = 3 \<and>
   over (playRect sample_layout) 300 300 \<and>
   (\<exists>s'. deliver (100, PointerUp 300 300 sample_layout) sample_full_drag = Inr s' \<and>
      length (playedCards s') \<le> 3)"
proof -
  let ?te = "(100 :: nat, PointerUp 300 300 sample_layout)"
  have ov: "over (playRect sample_layout) 300 300"
    by (simp add: over_def sample_layout_def r_right_def r_bottom_def)
  have len: "length (playedCards sample_full_drag) = 3"
    and tm: "timers sample_full_drag = []"
    and hand: "handChildren sample_full_drag = map SlotEl [0] @ PlaceholderEl 3 # map SlotEl [1]"
    by (simp_all add: sample_full_drag_def sample_table_def sample_hand_def empty_page_def)
  let ?s1 = "sample_full_drag\<lparr> now := max 100 (now sample_full_drag) \<rparr>"
  have adv: "advance 100 sample_full_drag = Inr ?s1"
    using tm by (rule advance_no_timers)
  have drag: "in_drag ?s1 2 3"
    using sample_full_drag_ok by simp
  have "\<not> over (playRect sample_layout) 300 300 \<or> MAX_FIELD \<le> length (playedCards ?s1)"
    using len by (simp add: MAX_FIELD_def)
  from endDrag_return [OF drag this, of "[0]" "[1]"] hand
  obtain s' where "endDrag 300 300 sample_layout ?s1 = Inr s'"
    by auto
  then have run: "deliver ?te sample_full_drag = Inr s'"
    using drag by (simp add: deliver_def adv bindE_def on_pointerup_drag)
  have "length (playedCards sample_full_drag) \<le> 3"
    using len by simp
  with table_capacity [of sample_full_drag ?te s'] run
  have "length (playedCards s') \<le> 3" by blast
  with len ov run show ?thesis by blast
qed

end
